theory Spec2Isabelle
  imports Complex_Main
begin

section \<open>Data model of board.py\<close>

text \<open>
  \<^verbatim>\<open>class Square\<close> has the three tags white = 0, black = 1, blank = 2.
  \<open>Square_val\<close> gives the integer a tag stands for, which matters where a method
  returns an integer that is not a tag (\<^verbatim>\<open>who_won\<close> returns -1).
\<close>

datatype square = white | black | blank

fun Square_val :: "square \<Rightarrow> int" where
  "Square_val white = 0"
| "Square_val black = 1"
| "Square_val blank = 2"

text \<open>
  What a call can end in other than a value: the two Python exceptions the modelled
  code can raise, and \<open>Diverges\<close> for a \<^verbatim>\<open>while\<close> loop that never ends.
\<close>

datatype failure = IndexError | ValueError | Diverges

type_synonym grid = "square list list"

text \<open>
  A \<^verbatim>\<open>Board\<close> object has the attributes \<^verbatim>\<open>board\<close> and \<^verbatim>\<open>turn\<close>. The constructor can
  leave \<^verbatim>\<open>board\<close> at \<^verbatim>\<open>None\<close>, so the type of that attribute is a parameter: the
  constructor yields a \<open>grid option Board\<close>, the methods work on a \<open>grid Board\<close>.
\<close>

record 'g Board =
  board :: 'g
  turn :: square

subsection \<open>Python list indexing\<close>

text \<open>
  The position that the index \<^verbatim>\<open>i\<close> names in a list of \<open>len\<close> elements: an index
  from \<^verbatim>\<open>-len\<close> up to -1 counts from the end, anything else outside
  \<^verbatim>\<open>range(len)\<close> names nothing.
\<close>

definition py_index :: "nat \<Rightarrow> int \<Rightarrow> nat option" where
  "py_index len i =
     (if 0 \<le> i \<and> i < int len then Some (nat i)
      else if - int len \<le> i \<and> i < 0 then Some (nat (int len + i))
      else None)"

text \<open>\<^verbatim>\<open>xs[i]\<close> and \<^verbatim>\<open>xs[i] = v\<close>, which raise where the index names nothing.\<close>

definition py_get :: "'a list \<Rightarrow> int \<Rightarrow> failure + 'a" where
  "py_get xs i =
     (case py_index (length xs) i of None \<Rightarrow> Inl IndexError | Some k \<Rightarrow> Inr (xs ! k))"

definition py_set :: "'a list \<Rightarrow> int \<Rightarrow> 'a \<Rightarrow> failure + 'a list" where
  "py_set xs i v =
     (case py_index (length xs) i of None \<Rightarrow> Inl IndexError | Some k \<Rightarrow> Inr (xs[k := v]))"

text \<open>\<^verbatim>\<open>g[r][c]\<close> and \<^verbatim>\<open>g[r][c] = v\<close>.\<close>

definition cell :: "grid \<Rightarrow> int \<Rightarrow> int \<Rightarrow> failure + square" where
  "cell g r c = (case py_get g r of Inl e \<Rightarrow> Inl e | Inr row \<Rightarrow> py_get row c)"

definition set_cell :: "grid \<Rightarrow> int \<Rightarrow> int \<Rightarrow> square \<Rightarrow> failure + grid" where
  "set_cell g r c v =
     (case py_get g r of
        Inl e \<Rightarrow> Inl e
      | Inr row \<Rightarrow>
          (case py_set row c v of
             Inl e \<Rightarrow> Inl e
           | Inr row' \<Rightarrow> py_set g r row'))"

text \<open>\<^verbatim>\<open>xrange(a, b)\<close>.\<close>

definition xrange :: "int \<Rightarrow> int \<Rightarrow> int list" where
  "xrange a b = [a..b - 1]"

text \<open>A \<^verbatim>\<open>for\<close> loop that updates a state and stops at the first exception.\<close>

fun for_each :: "('s \<Rightarrow> 'a \<Rightarrow> failure + 's) \<Rightarrow> 's \<Rightarrow> 'a list \<Rightarrow> failure + 's" where
  "for_each f s [] = Inr s"
| "for_each f s (x # xs) =
     (case f s x of Inl e \<Rightarrow> Inl e | Inr s' \<Rightarrow> for_each f s' xs)"

text \<open>
  A \<^verbatim>\<open>for\<close> loop whose body is \<^verbatim>\<open>if test(x): return True\<close>, followed by
  \<^verbatim>\<open>return False\<close>.
\<close>

fun return_true_if_any :: "('a \<Rightarrow> failure + bool) \<Rightarrow> 'a list \<Rightarrow> failure + bool" where
  "return_true_if_any f [] = Inr False"
| "return_true_if_any f (x # xs) =
     (case f x of
        Inl e \<Rightarrow> Inl e
      | Inr t \<Rightarrow> if t then Inr True else return_true_if_any f xs)"

subsection \<open>Construction\<close>

text \<open>
  \<^verbatim>\<open>__init__(self, size, board, turn)\<close>. \<^verbatim>\<open>if size:\<close> is false for \<^verbatim>\<open>None\<close> and for 0.
  The source is Python 2 (\<^verbatim>\<open>xrange\<close>), where \<^verbatim>\<open>size/2\<close> is floor division. A chained
  assignment \<^verbatim>\<open>a = b = v\<close> stores into \<^verbatim>\<open>a\<close> first.
\<close>

definition init :: "int option \<Rightarrow> grid option \<Rightarrow> square \<Rightarrow> failure + grid option Board" where
  "init sz board_arg turn_arg =
     (case sz of
        None \<Rightarrow> Inr \<lparr>board = board_arg, turn = turn_arg\<rparr>
      | Some n \<Rightarrow>
          if n = 0 then Inr \<lparr>board = board_arg, turn = turn_arg\<rparr>
          else
            (let g0 = replicate (nat n) (replicate (nat n) blank) in
             case set_cell g0 (n div 2) (n div 2) white of Inl e \<Rightarrow> Inl e | Inr g1 \<Rightarrow>
             case set_cell g1 (n div 2 - 1) (n div 2 - 1) white of Inl e \<Rightarrow> Inl e | Inr g2 \<Rightarrow>
             case set_cell g2 (n div 2) (n div 2 - 1) black of Inl e \<Rightarrow> Inl e | Inr g3 \<Rightarrow>
             case set_cell g3 (n div 2 - 1) (n div 2) black of Inl e \<Rightarrow> Inl e | Inr g4 \<Rightarrow>
             Inr \<lparr>board = Some g4, turn = turn_arg\<rparr>))"

definition makeboard :: "int \<Rightarrow> failure + grid option Board" where
  "makeboard sz = init (Some sz) None white"

definition remakeboard :: "grid \<Rightarrow> square \<Rightarrow> failure + grid option Board" where
  "remakeboard g t = init None (Some g) t"

subsection \<open>Queries\<close>

definition get_size :: "grid Board \<Rightarrow> int" where
  "get_size b = int (length (board b))"

definition get_turn :: "grid Board \<Rightarrow> square" where
  "get_turn b = turn b"

text \<open>\<^verbatim>\<open>get_squares_left\<close> iterates over the rows themselves, so it cannot raise.\<close>

definition get_squares_left :: "grid Board \<Rightarrow> int" where
  "get_squares_left b =
     fold (\<lambda>r remaining. fold (\<lambda>c remaining. if c = blank then remaining + 1 else remaining) r remaining)
       (board b) 0"

definition num_pieces :: "grid Board \<Rightarrow> square \<Rightarrow> failure + int" where
  "num_pieces b team =
     (let n = int (length (board b)) in
      for_each (\<lambda>pieces r.
          for_each (\<lambda>pieces c.
              case cell (board b) r c of
                Inl e \<Rightarrow> Inl e
              | Inr s \<Rightarrow> Inr (if s = team then pieces + 1 else pieces))
            pieces (xrange 0 n))
        0 (xrange 0 n))"

text \<open>
  \<^verbatim>\<open>who_won\<close> returns an integer: -1 when the turn is not blank, otherwise the tag of
  the side with more squares, the tag of blank on equal counts. It assigns to no
  attribute, so the model returns the value only.
\<close>

definition who_won :: "grid Board \<Rightarrow> failure + int" where
  "who_won b =
     (if turn b \<noteq> blank then Inr (- 1)
      else
        (let n = int (length (board b)) in
         case for_each (\<lambda>white_advantage r.
                  for_each (\<lambda>white_advantage c.
                      case cell (board b) r c of
                        Inl e \<Rightarrow> Inl e
                      | Inr s \<Rightarrow>
                          Inr (if s = white then white_advantage + 1
                               else if s = black then white_advantage - 1
                               else white_advantage))
                    white_advantage (xrange 0 n))
                (0::int) (xrange 0 n) of
           Inl e \<Rightarrow> Inl e
         | Inr white_advantage \<Rightarrow>
             if white_advantage = 0 then Inr (Square_val blank)
             else if white_advantage > 0 then Inr (Square_val white)
             else Inr (Square_val black)))"

subsection \<open>Move validation\<close>

definition validate_input :: "grid Board \<Rightarrow> int \<Rightarrow> int \<Rightarrow> square \<Rightarrow> failure + bool" where
  "validate_input b r c team =
     (let n = int (length (board b)) in
      if r < 0 \<or> r \<ge> n \<or> c < 0 \<or> c \<ge> n then Inr False
      else if turn b \<noteq> team then Inr False
      else
        (case cell (board b) r c of
           Inl e \<Rightarrow> Inl e
         | Inr s \<Rightarrow> if s \<noteq> blank then Inr False else Inr True))"

text \<open>
  The \<^verbatim>\<open>while\<close> loop of \<^verbatim>\<open>_validate_flip\<close> that walks one ray. It ends by leaving the
  grid or by a \<^verbatim>\<open>break\<close> (\<open>NoCapture\<close>), at a square of the team with the other
  team seen before (\<open>Bracket\<close>, with the position it stands on), or by an exception.
  The result is \<open>None\<close> when the loop never ends.
\<close>

datatype ray = NoCapture | Bracket int int | Raised failure

partial_function (option) walk ::
  "grid \<Rightarrow> square \<Rightarrow> int \<Rightarrow> int \<Rightarrow> int \<Rightarrow> int \<Rightarrow> bool \<Rightarrow> ray option" where
  [code]: "walk g team dr dc cur_r cur_c found_other =
     (if cur_r < int (length g) \<and> cur_r \<ge> 0 then
        (case py_get g 0 of
           Inl e \<Rightarrow> Some (Raised e)
         | Inr row0 \<Rightarrow>
             if cur_c < int (length row0) \<and> cur_c \<ge> 0 then
               (case cell g cur_r cur_c of
                  Inl e \<Rightarrow> Some (Raised e)
                | Inr s \<Rightarrow>
                    if s = blank then Some NoCapture
                    else if s = team then
                      (if found_other then Some (Bracket cur_r cur_c) else Some NoCapture)
                    else walk g team dr dc (cur_r + dr) (cur_c + dc) True)
             else Some NoCapture)
      else Some NoCapture)"

text \<open>
  The inner \<^verbatim>\<open>while\<close> loop that walks back from the bracketing square and appends
  every square on the way to \<^verbatim>\<open>flip_pieces\<close>.
\<close>

partial_function (option) walk_back ::
  "(int \<times> int) list \<Rightarrow> int \<Rightarrow> int \<Rightarrow> int \<Rightarrow> int \<Rightarrow> int \<Rightarrow> int \<Rightarrow> (int \<times> int) list option" where
  [code]: "walk_back flip_pieces r c mv_r mv_c cur_r cur_c =
     (if cur_r + mv_r \<noteq> r \<or> cur_c + mv_c \<noteq> c then
        walk_back (flip_pieces @ [(cur_r + mv_r, cur_c + mv_c)]) r c mv_r mv_c
          (cur_r + mv_r) (cur_c + mv_c)
      else Some flip_pieces)"

text \<open>
  The body of the two \<^verbatim>\<open>for\<close> loops over \<^verbatim>\<open>dr\<close> and \<^verbatim>\<open>dc\<close>. \<open>Next\<close> carries
  \<^verbatim>\<open>flip_pieces\<close> to the next direction, \<open>Return\<close> is the early \<^verbatim>\<open>return 1\<close>.
\<close>

datatype flow = Next "(int \<times> int) list" | Return int

definition direction ::
  "grid \<Rightarrow> int \<Rightarrow> int \<Rightarrow> square \<Rightarrow> bool \<Rightarrow> int \<Rightarrow> int \<Rightarrow> (int \<times> int) list \<Rightarrow> failure + flow" where
  "direction g r c team keep_score dr dc flip_pieces =
     (if dr = 0 \<and> dc = 0 then Inr (Next flip_pieces)
      else
        (case walk g team dr dc (r + dr) (c + dc) False of
           None \<Rightarrow> Inl Diverges
         | Some (Raised e) \<Rightarrow> Inl e
         | Some NoCapture \<Rightarrow> Inr (Next flip_pieces)
         | Some (Bracket cur_r cur_c) \<Rightarrow>
             if keep_score then
               (case walk_back flip_pieces r c (- 1 * dr) (- 1 * dc) cur_r cur_c of
                  None \<Rightarrow> Inl Diverges
                | Some flip_pieces' \<Rightarrow> Inr (Next flip_pieces'))
             else Inr (Return 1)))"

fun for_dc ::
  "grid \<Rightarrow> int \<Rightarrow> int \<Rightarrow> square \<Rightarrow> bool \<Rightarrow> int \<Rightarrow> int list \<Rightarrow> (int \<times> int) list \<Rightarrow> failure + flow" where
  "for_dc g r c team keep_score dr [] flip_pieces = Inr (Next flip_pieces)"
| "for_dc g r c team keep_score dr (dc # dcs) flip_pieces =
     (case direction g r c team keep_score dr dc flip_pieces of
        Inl e \<Rightarrow> Inl e
      | Inr (Return v) \<Rightarrow> Inr (Return v)
      | Inr (Next flip_pieces') \<Rightarrow> for_dc g r c team keep_score dr dcs flip_pieces')"

fun for_dr ::
  "grid \<Rightarrow> int \<Rightarrow> int \<Rightarrow> square \<Rightarrow> bool \<Rightarrow> int list \<Rightarrow> (int \<times> int) list \<Rightarrow> failure + flow" where
  "for_dr g r c team keep_score [] flip_pieces = Inr (Next flip_pieces)"
| "for_dr g r c team keep_score (dr # drs) flip_pieces =
     (case for_dc g r c team keep_score dr (xrange (- 1) 2) flip_pieces of
        Inl e \<Rightarrow> Inl e
      | Inr (Return v) \<Rightarrow> Inr (Return v)
      | Inr (Next flip_pieces') \<Rightarrow> for_dr g r c team keep_score drs flip_pieces')"

text \<open>
  \<^verbatim>\<open>_flip_pieces\<close>. The source iterates over a set of tuples; the model iterates over
  the list without duplicates. Each step changes the square it names only, so the
  order does not matter for the result.
\<close>

fun flip_pieces_loop :: "grid \<Rightarrow> (int \<times> int) list \<Rightarrow> failure + grid" where
  "flip_pieces_loop g [] = Inr g"
| "flip_pieces_loop g (piece # pieces) =
     (case cell g (fst piece) (snd piece) of
        Inl e \<Rightarrow> Inl e
      | Inr s \<Rightarrow>
          (case set_cell g (fst piece) (snd piece) (if s = white then black else white) of
             Inl e \<Rightarrow> Inl e
           | Inr g' \<Rightarrow> flip_pieces_loop g' pieces))"

definition validate_flip ::
  "grid Board \<Rightarrow> int \<Rightarrow> int \<Rightarrow> square \<Rightarrow> bool \<Rightarrow> bool \<Rightarrow> failure + (int \<times> grid Board)" where
  "validate_flip b r c team should_flip keep_score =
     (case for_dr (board b) r c team keep_score (xrange (- 1) 2) [] of
        Inl e \<Rightarrow> Inl e
      | Inr (Return v) \<Rightarrow> Inr (v, b)
      | Inr (Next flip_pieces) \<Rightarrow>
          (let flip_set = remdups flip_pieces in
           if should_flip then
             (case flip_pieces_loop (board b) flip_set of
                Inl e \<Rightarrow> Inl e
              | Inr g' \<Rightarrow> Inr (int (length flip_set), b\<lparr>board := g'\<rparr>))
           else Inr (int (length flip_set), b)))"

definition flip :: "grid Board \<Rightarrow> int \<Rightarrow> int \<Rightarrow> square \<Rightarrow> failure + (int \<times> grid Board)" where
  "flip b r c team = validate_flip b r c team True True"

definition flip_score :: "grid Board \<Rightarrow> int \<Rightarrow> int \<Rightarrow> square \<Rightarrow> failure + int" where
  "flip_score b r c team =
     (case validate_input b r c team of
        Inl e \<Rightarrow> Inl e
      | Inr ok \<Rightarrow>
          if ok then
            (case validate_flip b r c team False True of
               Inl e \<Rightarrow> Inl e
             | Inr (n, _) \<Rightarrow> Inr n)
          else Inr 0)"

definition can_flip :: "grid Board \<Rightarrow> int \<Rightarrow> int \<Rightarrow> square \<Rightarrow> failure + bool" where
  "can_flip b r c team =
     (case validate_input b r c team of
        Inl e \<Rightarrow> Inl e
      | Inr ok \<Rightarrow>
          if ok then
            (case validate_flip b r c team False False of
               Inl e \<Rightarrow> Inl e
             | Inr (n, _) \<Rightarrow> Inr (n \<noteq> 0))
          else Inr False)"

definition can_move :: "grid Board \<Rightarrow> square \<Rightarrow> failure + bool" where
  "can_move b team =
     (let n = int (length (board b)) in
      return_true_if_any (\<lambda>r. return_true_if_any (\<lambda>c. can_flip b r c team) (xrange 0 n))
        (xrange 0 n))"

subsection \<open>Turn advancement and placement\<close>

definition set_next_turn :: "grid Board \<Rightarrow> failure + grid Board" where
  "set_next_turn b =
     (let cur_turn = turn b in
      case can_move (b\<lparr>turn := black\<rparr>) black of Inl e \<Rightarrow> Inl e | Inr black_able \<Rightarrow>
      case can_move (b\<lparr>turn := white\<rparr>) white of Inl e \<Rightarrow> Inl e | Inr white_able \<Rightarrow>
      (let b1 = b\<lparr>turn := cur_turn\<rparr>;
           b2 = (if \<not> black_able \<and> \<not> white_able then b1\<lparr>turn := blank\<rparr> else b1)
       in
         if turn b2 = white then
           (let b3 = b2\<lparr>turn := black\<rparr> in
            if \<not> black_able then Inr (b3\<lparr>turn := white\<rparr>) else Inr b3)
         else if turn b2 = black then
           (let b3 = b2\<lparr>turn := white\<rparr> in
            if \<not> white_able then Inr (b3\<lparr>turn := black\<rparr>) else Inr b3)
         else Inr b2))"

definition add_piece :: "grid Board \<Rightarrow> int \<Rightarrow> int \<Rightarrow> square \<Rightarrow> failure + (int \<times> grid Board)" where
  "add_piece b r c team =
     (case validate_input b r c team of
        Inl e \<Rightarrow> Inl e
      | Inr ok \<Rightarrow>
          if \<not> ok then Inr (0, b)
          else
            (case flip b r c (turn b) of
               Inl e \<Rightarrow> Inl e
             | Inr (points, b1) \<Rightarrow>
                 if points = 0 then Inr (0, b1)
                 else
                   (case set_cell (board b1) r c (turn b1) of
                      Inl e \<Rightarrow> Inl e
                    | Inr g \<Rightarrow>
                        (case set_next_turn (b1\<lparr>board := g\<rparr>) of
                           Inl e \<Rightarrow> Inl e
                         | Inr b2 \<Rightarrow> Inr (points, b2)))))"

section \<open>The strategies of ai.py\<close>

text \<open>
  A move is the Python list \<^verbatim>\<open>[r, c, score]\<close>. \<^verbatim>\<open>sorted(xs, key=k, reverse=True)\<close> is
  a stable sort in descending order of the key: elements with equal keys keep their
  order. \<open>sort_key\<close> is a stable insertion sort, here on the negated key.
\<close>

type_synonym move = "int \<times> int \<times> int"

definition move_score :: "move \<Rightarrow> int" where
  "move_score m = snd (snd m)"

definition sorted_reverse :: "('a \<Rightarrow> int) \<Rightarrow> 'a list \<Rightarrow> 'a list" where
  "sorted_reverse k xs = sort_key (\<lambda>x. - k x) xs"

definition get_moves :: "grid Board \<Rightarrow> square \<Rightarrow> failure + move list" where
  "get_moves b team =
     (case for_each (\<lambda>valid_moves r.
              for_each (\<lambda>valid_moves c.
                  case flip_score b r c team of
                    Inl e \<Rightarrow> Inl e
                  | Inr s \<Rightarrow> Inr (if s \<noteq> 0 then valid_moves @ [(r, c, s)] else valid_moves))
                valid_moves (xrange 0 (get_size b)))
            [] (xrange 0 (get_size b)) of
        Inl e \<Rightarrow> Inl e
      | Inr valid_moves \<Rightarrow> Inr (sorted_reverse move_score valid_moves))"

text \<open>
  \<^verbatim>\<open>bisect(a, x)\<close> of the standard library, the binary search \<^verbatim>\<open>bisect_right\<close>:
  \<^verbatim>\<open>while lo < hi: mid = (lo+hi)//2; if x < a[mid]: hi = mid else: lo = mid+1\<close>,
  started with \<^verbatim>\<open>lo = 0\<close> and \<^verbatim>\<open>hi = len(a)\<close>, so that \<^verbatim>\<open>mid\<close> is always an index of
  the list. The list holds integers, \<^verbatim>\<open>x\<close> is a float, modelled as a real number.
\<close>

function bisect_loop :: "int list \<Rightarrow> real \<Rightarrow> nat \<Rightarrow> nat \<Rightarrow> nat" where
  "bisect_loop a x lo hi =
     (if lo < hi then
        (let mid = (lo + hi) div 2 in
         if x < real_of_int (a ! mid) then bisect_loop a x lo mid
         else bisect_loop a x (mid + 1) hi)
      else lo)"
  by pat_completeness auto
termination
  by (relation "measure (\<lambda>(a, x, lo, hi). hi - lo)") auto

declare bisect_loop.simps [simp del]

definition bisect :: "int list \<Rightarrow> real \<Rightarrow> int" where
  "bisect a x = int (bisect_loop a x 0 (length a))"

text \<open>
  \<^verbatim>\<open>_weight_moves_thirds\<close>. The loop multiplies the score of the move at index \<^verbatim>\<open>i\<close> by
  one of the three weights and appends the running total to \<^verbatim>\<open>cumulative_weights\<close>; its
  state is the list of moves, the total and the cumulative list. \<^verbatim>\<open>i * 1.5\<close> is a float
  product, modelled in the real numbers. \<open>rnd\<close> is the value \<^verbatim>\<open>random.random()\<close>
  returns, a number from 0 up to but not including 1.
\<close>

definition weight_step ::
  "int list \<Rightarrow> move list \<times> int \<times> int list \<Rightarrow> int \<Rightarrow> failure + (move list \<times> int \<times> int list)" where
  "weight_step weights st i =
     (case st of (valid_moves, total_w, cumulative_weights) \<Rightarrow>
        case (if i * 3 \<le> int (length valid_moves) then py_get weights 0
              else if real_of_int i * 1.5 \<le> real (length valid_moves) then py_get weights 1
              else py_get weights 2) of
          Inl e \<Rightarrow> Inl e
        | Inr w \<Rightarrow>
            (case py_get valid_moves i of
               Inl e \<Rightarrow> Inl e
             | Inr (r, c, s) \<Rightarrow>
                 (case py_set valid_moves i (r, c, s * w) of
                    Inl e \<Rightarrow> Inl e
                  | Inr valid_moves' \<Rightarrow>
                      Inr (valid_moves', total_w + s * w, cumulative_weights @ [total_w + s * w]))))"

definition weight_moves_thirds :: "move list \<Rightarrow> int list \<Rightarrow> real \<Rightarrow> failure + move" where
  "weight_moves_thirds valid_moves weights rnd =
     (case for_each (weight_step weights) (valid_moves, 0, [])
             (xrange 0 (int (length valid_moves))) of
        Inl e \<Rightarrow> Inl e
      | Inr (valid_moves', total_w, cumulative_weights) \<Rightarrow>
          (let our_move = bisect cumulative_weights (rnd * real_of_int total_w);
               our_move = (if our_move = int (length valid_moves') then our_move - 1 else our_move)
           in py_get valid_moves' our_move))"

text \<open>\<^verbatim>\<open>novice_move\<close>: the scores are replaced by their distance to the first score.\<close>

definition novice_move :: "grid Board \<Rightarrow> real \<Rightarrow> failure + move" where
  "novice_move b rnd =
     (case get_moves b black of
        Inl e \<Rightarrow> Inl e
      | Inr valid_moves \<Rightarrow>
          (case py_get valid_moves 0 of
             Inl e \<Rightarrow> Inl e
           | Inr first \<Rightarrow>
               (let large = move_score first;
                    valid_moves' = map (\<lambda>(r, c, s). (r, c, large - s)) valid_moves
                in weight_moves_thirds valid_moves' [2, 3, 4] rnd)))"

text \<open>
  \<^verbatim>\<open>random.randrange(0, n)\<close> raises \<^verbatim>\<open>ValueError\<close> on an empty range and returns some
  number of the range otherwise; \<open>pick\<close> stands for the random source.
\<close>

definition randrange :: "int \<Rightarrow> int \<Rightarrow> int \<Rightarrow> failure + int" where
  "randrange start stop pick =
     (if stop \<le> start then Inl ValueError else Inr (start + pick mod (stop - start)))"

definition weak_move :: "grid Board \<Rightarrow> int \<Rightarrow> failure + move" where
  "weak_move b pick =
     (case get_moves b black of
        Inl e \<Rightarrow> Inl e
      | Inr valid_moves \<Rightarrow>
          (case randrange 0 (int (length valid_moves)) pick of
             Inl e \<Rightarrow> Inl e
           | Inr k \<Rightarrow> py_get valid_moves k))"

definition moderate_move :: "grid Board \<Rightarrow> real \<Rightarrow> failure + move" where
  "moderate_move b rnd =
     (case get_moves b black of
        Inl e \<Rightarrow> Inl e
      | Inr valid_moves \<Rightarrow> weight_moves_thirds valid_moves [5, 2, 0] rnd)"

section \<open>Well-formed grids\<close>

text \<open>
  The grid of a board is N by N: every row is as long as the list of rows. The
  methods compare both coordinates with \<^verbatim>\<open>len(self.board)\<close>, so on any other grid
  an index can be out of range.
\<close>

definition square_grid :: "grid \<Rightarrow> bool" where
  "square_grid g = (\<forall>row \<in> set g. length row = length g)"

definition in_grid :: "grid \<Rightarrow> int \<Rightarrow> int \<Rightarrow> bool" where
  "in_grid g r c = (0 \<le> r \<and> r < int (length g) \<and> 0 \<le> c \<and> c < int (length g))"

text \<open>The number of blank squares of a grid.\<close>

definition blank_count :: "grid \<Rightarrow> nat" where
  "blank_count g = (\<Sum>row\<leftarrow>g. \<Sum>s\<leftarrow>row. if s = blank then 1 else 0)"

section \<open>The capture rule in the words of the specification\<close>

text \<open>
  The eight ray directions, and the squares of one ray from \<open>(r, c)\<close>: the squares
  \<open>(r + k * dr, c + k * dc)\<close> for \<open>k = 1, 2, ...\<close> up to the last one before the ray
  leaves the grid. A ray that starts inside an N by N grid has left it after N steps at
  the latest, so the steps below N are all there are to look at.
\<close>

definition directions :: "(int \<times> int) list" where
  "directions = [(- 1, - 1), (- 1, 0), (- 1, 1), (0, - 1), (0, 1), (1, - 1), (1, 0), (1, 1)]"

definition ray_pos :: "int \<Rightarrow> int \<Rightarrow> int \<times> int \<Rightarrow> nat \<Rightarrow> int \<times> int" where
  "ray_pos r c d k = (r + int k * fst d, c + int k * snd d)"

definition ray_squares :: "grid \<Rightarrow> int \<Rightarrow> int \<Rightarrow> int \<times> int \<Rightarrow> (int \<times> int) list" where
  "ray_squares g r c d =
     takeWhile (\<lambda>p. in_grid g (fst p) (snd p)) (map (ray_pos r c d) [1..<length g])"

definition square_at :: "grid \<Rightarrow> int \<times> int \<Rightarrow> square" where
  "square_at g p = g ! nat (fst p) ! nat (snd p)"

definition opposing :: "square \<Rightarrow> square \<Rightarrow> bool" where
  "opposing side s = (s \<noteq> blank \<and> s \<noteq> side)"

text \<open>
  The capture run of one direction: the opposing squares met before the first square
  that is not opposing, if the ray does not leave the grid first and that square
  belongs to the acting side; nothing if it is empty.
\<close>

definition capture_run :: "grid \<Rightarrow> square \<Rightarrow> int \<Rightarrow> int \<Rightarrow> int \<times> int \<Rightarrow> (int \<times> int) list" where
  "capture_run g side r c d =
     (let ray = ray_squares g r c d;
          run = takeWhile (\<lambda>p. opposing side (square_at g p)) ray
      in case drop (length run) ray of
           [] \<Rightarrow> []
         | p # _ \<Rightarrow>
             if square_at g p = blank then []
             else if square_at g p = side then run
             else [])"

text \<open>The capture set is the union over the eight directions, the score its size.\<close>

definition captures :: "grid \<Rightarrow> square \<Rightarrow> int \<Rightarrow> int \<Rightarrow> (int \<times> int) set" where
  "captures g side r c = (\<Union>d \<in> set directions. set (capture_run g side r c d))"

definition score :: "grid \<Rightarrow> square \<Rightarrow> int \<Rightarrow> int \<Rightarrow> int" where
  "score g side r c = int (card (captures g side r c))"

text \<open>
  A legal move of a side on a grid, as the glossary has it: an empty square inside
  the grid where the side captures at least one square. Whose turn it is plays no
  part in it.
\<close>

definition capturing_square :: "grid \<Rightarrow> square \<Rightarrow> int \<Rightarrow> int \<Rightarrow> bool" where
  "capturing_square g side r c =
     (in_grid g r c \<and> square_at g (r, c) = blank \<and> captures g side r c \<noteq> {})"

definition has_legal_move :: "grid \<Rightarrow> square \<Rightarrow> bool" where
  "has_legal_move g side =
     (\<exists>r \<in> set (xrange 0 (int (length g))). \<exists>c \<in> set (xrange 0 (int (length g))).
        capturing_square g side r c)"

text \<open>
  Turn advancement in the words of the specification: the non-mover if it has a legal
  move, otherwise the mover if it has one, otherwise the terminal marker (blank).
\<close>

fun opponent :: "square \<Rightarrow> square" where
  "opponent white = black"
| "opponent black = white"
| "opponent blank = blank"

definition turn_after :: "grid \<Rightarrow> square \<Rightarrow> square" where
  "turn_after g mover =
     (if has_legal_move g (opponent mover) then opponent mover
      else if has_legal_move g mover then mover
      else blank)"

text \<open>Row-major order of two moves: the order in which the scan of the grid meets them.\<close>

definition row_major_before :: "move \<Rightarrow> move \<Rightarrow> bool" where
  "row_major_before m m' = (fst m < fst m' \<or> (fst m = fst m' \<and> fst (snd m) < fst (snd m')))"

section \<open>Facts about grids\<close>

lemma py_get_in: "0 \<le> i \<Longrightarrow> i < int (length xs) \<Longrightarrow> py_get xs i = Inr (xs ! nat i)"
  by (simp add: py_get_def py_index_def)

lemma py_set_in: "0 \<le> i \<Longrightarrow> i < int (length xs) \<Longrightarrow> py_set xs i v = Inr (xs[nat i := v])"
  by (simp add: py_set_def py_index_def)

lemma square_grid_row: "square_grid g \<Longrightarrow> i < length g \<Longrightarrow> length (g ! i) = length g"
  by (simp add: square_grid_def)

lemma cell_in:
  assumes "square_grid g" "in_grid g r c"
  shows "cell g r c = Inr (g ! nat r ! nat c)"
proof -
  have r: "0 \<le> r" "r < int (length g)" and c: "0 \<le> c" "c < int (length g)"
    using assms(2) by (simp_all add: in_grid_def)
  have "length (g ! nat r) = length g"
    using assms(1) r by (simp add: square_grid_row)
  then show ?thesis
    using r c by (simp add: cell_def py_get_in)
qed

lemma set_cell_in:
  assumes "square_grid g" "in_grid g r c"
  shows "set_cell g r c v = Inr (g[nat r := (g ! nat r)[nat c := v]])"
proof -
  have r: "0 \<le> r" "r < int (length g)" and c: "0 \<le> c" "c < int (length g)"
    using assms(2) by (simp_all add: in_grid_def)
  have "length (g ! nat r) = length g"
    using assms(1) r by (simp add: square_grid_row)
  then show ?thesis
    using r c by (simp add: set_cell_def py_get_in py_set_in)
qed

lemma square_grid_update:
  "square_grid g \<Longrightarrow> length row = length g \<Longrightarrow> square_grid (g[i := row])"
  unfolding square_grid_def by (auto dest!: set_update_subset_insert[THEN subsetD])

lemma square_grid_replicate: "square_grid (replicate n (replicate n x))"
  by (simp add: square_grid_def)

lemma set_cell_wrap:
  assumes "square_grid g" "- int (length g) \<le> r" "r < int (length g)"
    "- int (length g) \<le> c" "c < int (length g)"
  shows "\<exists>g'. set_cell g r c v = Inr g' \<and> square_grid g' \<and> length g' = length g"
proof -
  define i where "i = nat (if r < 0 then int (length g) + r else r)"
  have i: "i < length g" using assms by (auto simp: i_def)
  then have len: "length (g ! i) = length g" using assms(1) by (simp add: square_grid_def)
  have 1: "py_get g r = Inr (g ! i)" using assms i by (auto simp: py_get_def py_index_def i_def)
  define j where "j = nat (if c < 0 then int (length g) + c else c)"
  have 2: "py_set (g ! i) c v = Inr ((g ! i)[j := v])"
    using assms len by (auto simp: py_set_def py_index_def j_def)
  have 3: "py_set g r ((g ! i)[j := v]) = Inr (g[i := (g ! i)[j := v]])"
    using assms i by (auto simp: py_set_def py_index_def i_def)
  show ?thesis
    using 1 2 3 assms(1) len by (simp add: set_cell_def square_grid_update)
qed

subsection \<open>Construction\<close>

lemma makeboard_returns:
  assumes "0 \<le> sz"
  shows "\<exists>b. makeboard sz = Inr b"
proof (cases "sz = 0")
  case True
  then show ?thesis by (simp add: makeboard_def init_def)
next
  case False
  with assms have pos: "0 < sz" by simp
  define n where "n = nat sz"
  have n: "int n = sz" using pos by (simp add: n_def)
  define g0 where "g0 = replicate n (replicate n blank)"
  have g0: "square_grid g0" "length g0 = n" by (simp_all add: g0_def square_grid_replicate)
  have b1: "- int n \<le> sz div 2" "sz div 2 < int n" "- int n \<le> sz div 2 - 1" "sz div 2 - 1 < int n"
    using pos n by auto
  obtain g1 where g1: "set_cell g0 (sz div 2) (sz div 2) white = Inr g1" "square_grid g1" "length g1 = n"
    using set_cell_wrap[of g0 "sz div 2" "sz div 2" white] g0 b1 by auto
  obtain g2 where g2: "set_cell g1 (sz div 2 - 1) (sz div 2 - 1) white = Inr g2" "square_grid g2" "length g2 = n"
    using set_cell_wrap[of g1 "sz div 2 - 1" "sz div 2 - 1" white] g1 b1 by auto
  obtain g3 where g3: "set_cell g2 (sz div 2) (sz div 2 - 1) black = Inr g3" "square_grid g3" "length g3 = n"
    using set_cell_wrap[of g2 "sz div 2" "sz div 2 - 1" black] g2 b1 by auto
  obtain g4 where g4: "set_cell g3 (sz div 2 - 1) (sz div 2) black = Inr g4" "square_grid g4" "length g4 = n"
    using set_cell_wrap[of g3 "sz div 2 - 1" "sz div 2" black] g3 b1 by auto
  show ?thesis
    using False g1(1) g2(1) g3(1) g4(1)
    by (simp add: makeboard_def init_def g0_def n_def)
qed

lemma makeboard_turn: "makeboard sz = Inr b \<Longrightarrow> turn b = white"
  by (auto simp: makeboard_def init_def Let_def split: if_splits sum.splits)

subsection \<open>Counting squares\<close>

lemma set_xrange: "set (xrange a b) = {i. a \<le> i \<and> i < b}"
  by (auto simp: xrange_def)

definition tally :: "grid \<Rightarrow> (square \<Rightarrow> int) \<Rightarrow> int" where
  "tally g w =
     (\<Sum>r\<leftarrow>xrange 0 (int (length g)). \<Sum>c\<leftarrow>xrange 0 (int (length g)). w (g ! nat r ! nat c))"

lemma for_each_cells:
  assumes "square_grid g" "0 \<le> r" "r < int (length g)"
    and "\<forall>c \<in> set cs. 0 \<le> c \<and> c < int (length g)"
    and "\<And>acc s. f acc s = acc + w s"
  shows "for_each (\<lambda>acc c. case cell g r c of Inl e \<Rightarrow> Inl e | Inr s \<Rightarrow> Inr (f acc s)) acc cs
         = Inr (acc + (\<Sum>c\<leftarrow>cs. w (g ! nat r ! nat c)))"
  using assms(1-4)
  by (induction cs arbitrary: acc) (auto simp: cell_in in_grid_def add.assoc assms(5))

lemma for_each_rows:
  assumes "square_grid g"
    and "\<forall>r \<in> set rs. 0 \<le> r \<and> r < int (length g)"
    and "\<And>acc s. f acc s = acc + w s"
  shows "for_each (\<lambda>acc r.
            for_each (\<lambda>acc c. case cell g r c of Inl e \<Rightarrow> Inl e | Inr s \<Rightarrow> Inr (f acc s))
              acc (xrange 0 (int (length g)))) acc rs
         = Inr (acc + (\<Sum>r\<leftarrow>rs. \<Sum>c\<leftarrow>xrange 0 (int (length g)). w (g ! nat r ! nat c)))"
  using assms(1,2)
proof (induction rs arbitrary: acc)
  case Nil
  then show ?case by simp
next
  case (Cons r rs)
  have "for_each (\<lambda>acc c. case cell g r c of Inl e \<Rightarrow> Inl e | Inr s \<Rightarrow> Inr (f acc s))
              acc (xrange 0 (int (length g)))
        = Inr (acc + (\<Sum>c\<leftarrow>xrange 0 (int (length g)). w (g ! nat r ! nat c)))"
    using Cons.prems by (intro for_each_cells[where w = w]) (auto simp: set_xrange assms(3))
  then show ?case
    using Cons by (simp add: add.assoc)
qed

lemma num_pieces_tally:
  assumes "square_grid (board b)"
  shows "num_pieces b team = Inr (tally (board b) (\<lambda>s. if s = team then 1 else 0))"
proof -
  have "for_each (\<lambda>acc r.
            for_each (\<lambda>acc c. case cell (board b) r c of Inl e \<Rightarrow> Inl e
                 | Inr s \<Rightarrow> Inr (if s = team then acc + 1 else acc))
              acc (xrange 0 (int (length (board b))))) 0 (xrange 0 (int (length (board b))))
        = Inr (0 + tally (board b) (\<lambda>s. if s = team then 1 else 0))"
    unfolding tally_def using assms
    by (intro for_each_rows) (auto simp: set_xrange)
  then show ?thesis by (simp add: num_pieces_def)
qed

lemma tally_diff: "tally g (\<lambda>s. u s - v s) = tally g u - tally g v"
  by (simp add: tally_def sum_list_subtractf)

lemma white_advantage_tally:
  assumes "square_grid g"
  shows "for_each (\<lambda>white_advantage r.
                  for_each (\<lambda>white_advantage c.
                      case cell g r c of
                        Inl e \<Rightarrow> Inl e
                      | Inr s \<Rightarrow>
                          Inr (if s = white then white_advantage + 1
                               else if s = black then white_advantage - 1
                               else white_advantage))
                    white_advantage (xrange 0 (int (length g))))
                (0::int) (xrange 0 (int (length g)))
         = Inr (tally g (\<lambda>s. if s = white then 1 else 0) - tally g (\<lambda>s. if s = black then 1 else 0))"
proof -
  have "for_each (\<lambda>white_advantage r.
                  for_each (\<lambda>white_advantage c.
                      case cell g r c of
                        Inl e \<Rightarrow> Inl e
                      | Inr s \<Rightarrow>
                          Inr (if s = white then white_advantage + 1
                               else if s = black then white_advantage - 1
                               else white_advantage))
                    white_advantage (xrange 0 (int (length g))))
                (0::int) (xrange 0 (int (length g)))
         = Inr (0 + tally g (\<lambda>s. (if s = white then 1 else 0) - (if s = black then 1 else 0)))"
    unfolding tally_def using assms
    by (intro for_each_rows) (auto simp: set_xrange)
  then show ?thesis by (simp add: tally_diff)
qed

lemma get_squares_left_blank_count: "get_squares_left b = int (blank_count (board b))"
proof -
  have row: "fold (\<lambda>c remaining. if c = blank then remaining + 1 else remaining) r acc
             = acc + int (\<Sum>s\<leftarrow>r. if s = blank then 1 else 0)" for r and acc :: int
    by (induction r arbitrary: acc) auto
  have "fold (\<lambda>r remaining. fold (\<lambda>c remaining. if c = blank then remaining + 1 else remaining) r remaining) g acc
        = acc + int (blank_count g)" for g and acc :: int
    by (induction g arbitrary: acc) (auto simp: row blank_count_def)
  then show ?thesis by (simp add: get_squares_left_def)
qed

section \<open>The ray loops compute the capture runs\<close>

text \<open>What the ray loop returns on the list of the squares it will visit.\<close>

fun scan :: "grid \<Rightarrow> square \<Rightarrow> (int \<times> int) list \<Rightarrow> bool \<Rightarrow> ray" where
  "scan g team [] found = NoCapture"
| "scan g team (p # ps) found =
     (if square_at g p = blank then NoCapture
      else if square_at g p = team then (if found then Bracket (fst p) (snd p) else NoCapture)
      else scan g team ps True)"

definition unit_dir :: "int \<times> int \<Rightarrow> bool" where
  "unit_dir d = (fst d \<in> {- 1, 0, 1} \<and> snd d \<in> {- 1, 0, 1} \<and> d \<noteq> (0, 0))"

lemma ray_pos_leaves:
  assumes "unit_dir d" "in_grid g r c" "length g \<le> k"
  shows "\<not> in_grid g (fst (ray_pos r c d k)) (snd (ray_pos r c d k))"
  using assms by (cases d) (auto simp: unit_dir_def in_grid_def ray_pos_def)

lemma ray_pos_Suc:
  "ray_pos r c (dr, dc) (Suc k) = (fst (ray_pos r c (dr, dc) k) + dr, snd (ray_pos r c (dr, dc) k) + dc)"
  by (simp add: ray_pos_def algebra_simps)

definition ray_from :: "grid \<Rightarrow> int \<Rightarrow> int \<Rightarrow> int \<times> int \<Rightarrow> nat \<Rightarrow> (int \<times> int) list" where
  "ray_from g r c d k =
     takeWhile (\<lambda>p. in_grid g (fst p) (snd p)) (map (ray_pos r c d) [k..<length g])"

lemma walk_outside:
  assumes "square_grid g" "\<not> in_grid g x y"
  shows "walk g team dr dc x y found = Some NoCapture"
proof (cases "x < int (length g) \<and> 0 \<le> x")
  case False
  then show ?thesis by (subst walk.simps) auto
next
  case True
  then have "0 < length g" by auto
  then have len0: "py_get g 0 = Inr (g ! 0)" "length (g ! 0) = length g"
    using assms(1) by (simp_all add: py_get_in square_grid_row)
  have "\<not> (y < int (length g) \<and> 0 \<le> y)"
    using assms(2) True by (auto simp: in_grid_def)
  then show ?thesis
    using True by (subst walk.simps) (auto simp: len0)
qed

lemma walk_scan:
  assumes sq: "square_grid g" and d: "unit_dir (dr, dc)" and org: "in_grid g r c"
  shows "walk g team dr dc (fst (ray_pos r c (dr, dc) k)) (snd (ray_pos r c (dr, dc) k)) found
         = Some (scan g team (ray_from g r c (dr, dc) k) found)"
proof (induction "length g - k" arbitrary: k found)
  case 0
  then have out: "\<not> in_grid g (fst (ray_pos r c (dr, dc) k)) (snd (ray_pos r c (dr, dc) k))"
    using ray_pos_leaves[OF d org, of k] by simp
  have "ray_from g r c (dr, dc) k = []" using 0 by (simp add: ray_from_def)
  moreover have "walk g team dr dc (fst (ray_pos r c (dr, dc) k)) (snd (ray_pos r c (dr, dc) k)) found
      = Some NoCapture"
    using out sq by (rule walk_outside[rotated])
  ultimately show ?case by simp
next
  case (Suc m)
  let ?p = "ray_pos r c (dr, dc) k"
  have k: "k < length g" using Suc by simp
  then have upt: "[k..<length g] = k # [Suc k..<length g]" by (simp add: upt_conv_Cons)
  have IH: "walk g team dr dc (fst ?p + dr) (snd ?p + dc) True
      = Some (scan g team (ray_from g r c (dr, dc) (Suc k)) True)"
    using Suc(1)[of "Suc k" True] Suc(2) by (simp add: ray_pos_Suc)
  show ?case
  proof (cases "in_grid g (fst ?p) (snd ?p)")
    case False
    have "ray_from g r c (dr, dc) k = []" using False by (simp add: ray_from_def upt)
    moreover have "walk g team dr dc (fst ?p) (snd ?p) found = Some NoCapture"
      using False sq by (rule walk_outside[rotated])
    ultimately show ?thesis by simp
  next
    case True
    have rf: "ray_from g r c (dr, dc) k = ?p # ray_from g r c (dr, dc) (Suc k)"
      using True by (simp add: ray_from_def upt)
    have "0 < length g" using org by (auto simp: in_grid_def)
    then have len0: "py_get g 0 = Inr (g ! 0)" "length (g ! 0) = length g"
      using sq by (simp_all add: py_get_in square_grid_row)
    have c: "cell g (fst ?p) (snd ?p) = Inr (square_at g ?p)"
      using cell_in[OF sq True] by (simp add: square_at_def)
    show ?thesis
      using True IH
      by (subst walk.simps) (simp add: rf len0 c in_grid_def)
  qed
qed

lemma scan_takeWhile:
  "scan g team ps found =
     (let run = takeWhile (\<lambda>p. opposing team (square_at g p)) ps
      in case drop (length run) ps of
           [] \<Rightarrow> NoCapture
         | p # _ \<Rightarrow>
             if square_at g p = blank then NoCapture
             else if square_at g p = team then
               (if found \<or> run \<noteq> [] then Bracket (fst p) (snd p) else NoCapture)
             else NoCapture)"
  by (induction ps arbitrary: found) (auto simp: opposing_def Let_def split: list.splits)

lemma walk_back_ray:
  assumes "d \<noteq> (0, 0)"
  shows "walk_back acc r c (- 1 * fst d) (- 1 * snd d)
           (fst (ray_pos r c d (Suc j))) (snd (ray_pos r c d (Suc j)))
         = Some (acc @ rev (map (ray_pos r c d) [1..<Suc j]))"
proof (induction j arbitrary: acc)
  case 0
  show ?case by (subst walk_back.simps) (simp add: ray_pos_def)
next
  case (Suc j)
  have ne: "fst (ray_pos r c d (Suc (Suc j))) + - 1 * fst d \<noteq> r \<or>
            snd (ray_pos r c d (Suc (Suc j))) + - 1 * snd d \<noteq> c"
  proof -
    have "int (Suc j) * fst d \<noteq> 0 \<or> int (Suc j) * snd d \<noteq> 0"
      using assms by (cases d) auto
    then show ?thesis
      unfolding ray_pos_def by (auto simp: algebra_simps)
  qed
  have step: "(fst (ray_pos r c d (Suc (Suc j))) + - 1 * fst d,
               snd (ray_pos r c d (Suc (Suc j))) + - 1 * snd d) = ray_pos r c d (Suc j)"
    by (simp add: ray_pos_def algebra_simps)
  have "walk_back acc r c (- 1 * fst d) (- 1 * snd d)
           (fst (ray_pos r c d (Suc (Suc j)))) (snd (ray_pos r c d (Suc (Suc j))))
        = walk_back (acc @ [ray_pos r c d (Suc j)]) r c (- 1 * fst d) (- 1 * snd d)
           (fst (ray_pos r c d (Suc j))) (snd (ray_pos r c d (Suc j)))"
    using ne step by (subst walk_back.simps) (simp del: mult_minus1 add: prod_eq_iff)
  then show ?case
    using Suc[of "acc @ [ray_pos r c d (Suc j)]"] by simp
qed

lemma takeWhile_map_upt:
  "takeWhile P (map f [a..<b]) = map f [a..<a + length (takeWhile P (map f [a..<b]))]"
proof (cases "a \<le> b")
  case False
  then show ?thesis by simp
next
  case True
  let ?t = "takeWhile P (map f [a..<b])"
  have le: "length ?t \<le> b - a"
    using length_takeWhile_le[of P "map f [a..<b]"] by simp
  have "?t = take (length ?t) (map f [a..<b])"
    by (rule takeWhile_eq_take)
  also have "\<dots> = map f (take (length ?t) [a..<b])" by (simp add: take_map)
  also have "take (length ?t) [a..<b] = [a..<a + length ?t]"
    using le True by (intro take_upt) simp
  finally show ?thesis .
qed

lemma ray_from_1: "ray_from g r c d (Suc 0) = ray_squares g r c d"
  by (simp add: ray_from_def ray_squares_def)

text \<open>What one direction does, in terms of the capture run of that direction.\<close>

lemma walk_capture_run:
  assumes sq: "square_grid g" and org: "in_grid g r c" and d: "unit_dir (dr, dc)"
  shows "(capture_run g team r c (dr, dc) = [] \<and>
            walk g team dr dc (r + dr) (c + dc) False = Some NoCapture) \<or>
         (\<exists>j. capture_run g team r c (dr, dc) = map (ray_pos r c (dr, dc)) [1..<Suc j] \<and> 0 < j \<and>
            walk g team dr dc (r + dr) (c + dc) False
              = Some (Bracket (fst (ray_pos r c (dr, dc) (Suc j))) (snd (ray_pos r c (dr, dc) (Suc j)))))"
proof -
  let ?d = "(dr, dc)"
  let ?pos = "ray_pos r c ?d"
  define ray where "ray = ray_squares g r c ?d"
  define run where "run = takeWhile (\<lambda>p. opposing team (square_at g p)) ray"
  define L where "L = length ray"
  define j where "j = length run"
  have ray: "ray = map ?pos [1..<1 + L]"
    unfolding L_def ray_def ray_squares_def by (rule takeWhile_map_upt)
  have jL: "j \<le> L" unfolding j_def L_def run_def by (rule length_takeWhile_le)
  have run: "run = map ?pos [1..<Suc j]"
  proof -
    have "run = take j ray" unfolding j_def run_def by (rule takeWhile_eq_take)
    also have "\<dots> = map ?pos (take j [1..<1 + L])" by (subst ray) (simp add: take_map)
    also have "take j [1..<1 + L] = [1..<1 + j]" using jL by (intro take_upt) simp
    finally show ?thesis by simp
  qed
  have dropj: "drop j ray = map ?pos [Suc j..<Suc L]"
    by (subst ray) (simp add: drop_map drop_upt del: upt_Suc)
  have w: "walk g team dr dc (r + dr) (c + dc) False = Some (scan g team ray False)"
    using walk_scan[OF sq d org, of team 1 False] by (simp add: ray_from_1 ray_pos_def ray_def)
  have cr: "capture_run g team r c ?d =
      (case drop j ray of
         [] \<Rightarrow> []
       | p # _ \<Rightarrow> if square_at g p = blank then [] else if square_at g p = team then run else [])"
    by (simp only: capture_run_def Let_def ray_def[symmetric] run_def[symmetric] j_def[symmetric])
  have sc: "scan g team ray False =
      (case drop j ray of
         [] \<Rightarrow> NoCapture
       | p # _ \<Rightarrow>
           if square_at g p = blank then NoCapture
           else if square_at g p = team then
             (if False \<or> run \<noteq> [] then Bracket (fst p) (snd p) else NoCapture)
           else NoCapture)"
    by (simp only: scan_takeWhile Let_def run_def[symmetric] j_def[symmetric])
  have empty: "run = [] \<longleftrightarrow> j = 0" by (simp only: j_def length_0_conv)
  show ?thesis
  proof (cases "j < L")
    case False
    then have "drop j ray = []" using dropj by simp
    then have "capture_run g team r c ?d = []" "scan g team ray False = NoCapture"
      by (simp_all only: cr sc list.case)
    then show ?thesis using w by simp
  next
    case True
    then have "[Suc j..<Suc L] = Suc j # [Suc (Suc j)..<Suc L]"
      by (intro upt_conv_Cons) simp
    then have hd: "drop j ray = ?pos (Suc j) # map ?pos [Suc (Suc j)..<Suc L]"
      using dropj by (simp del: upt_Suc)
    have "dropWhile (\<lambda>p. opposing team (square_at g p)) ray = drop j ray"
      unfolding j_def run_def by (rule dropWhile_eq_drop)
    then have "\<not> opposing team (square_at g (?pos (Suc j)))"
      using hd hd_dropWhile[of "\<lambda>p. opposing team (square_at g p)" ray] by simp
    then have stop: "square_at g (?pos (Suc j)) = blank \<or> square_at g (?pos (Suc j)) = team"
      by (auto simp: opposing_def)
    have cr': "capture_run g team r c ?d =
        (if square_at g (?pos (Suc j)) = blank then []
         else if square_at g (?pos (Suc j)) = team then run else [])"
      by (simp only: cr hd list.case)
    have sc': "scan g team ray False =
        (if square_at g (?pos (Suc j)) = blank then NoCapture
         else if square_at g (?pos (Suc j)) = team then
           (if run \<noteq> [] then Bracket (fst (?pos (Suc j))) (snd (?pos (Suc j))) else NoCapture)
         else NoCapture)"
      by (simp only: sc hd list.case simp_thms)
    show ?thesis
    proof (cases "square_at g (?pos (Suc j)) \<noteq> blank \<and> 0 < j")
      case True
      then have nb: "square_at g (?pos (Suc j)) = team" "run \<noteq> []"
        using stop empty by auto
      have "capture_run g team r c ?d = map ?pos [1..<Suc j]"
        using True nb(1) by (simp only: cr' run if_False if_True simp_thms)
      moreover have "scan g team ray False = Bracket (fst (?pos (Suc j))) (snd (?pos (Suc j)))"
        using True nb by (simp only: sc' if_False if_True simp_thms)
      ultimately have "capture_run g team r c ?d = map ?pos [1..<Suc j] \<and> 0 < j \<and>
          walk g team dr dc (r + dr) (c + dc) False
            = Some (Bracket (fst (?pos (Suc j))) (snd (?pos (Suc j))))"
        using w True by (simp only: simp_thms)
      then show ?thesis by (intro disjI2 exI[of _ j])
    next
      case False
      then consider "square_at g (?pos (Suc j)) = blank" | "square_at g (?pos (Suc j)) \<noteq> blank" "run = []"
        using empty by auto
      then have "capture_run g team r c ?d = [] \<and> scan g team ray False = NoCapture"
      proof cases
        case 1
        then show ?thesis by (simp only: cr' sc' if_True simp_thms)
      next
        case 2
        then show ?thesis by (simp add: cr' sc')
      qed
      then show ?thesis using w by simp
    qed
  qed
qed

lemma direction_keep:
  assumes sq: "square_grid g" and org: "in_grid g r c" and d: "unit_dir (dr, dc)"
  shows "direction g r c team True dr dc fp
         = Inr (Next (fp @ rev (capture_run g team r c (dr, dc))))"
proof -
  have nz: "\<not> (dr = 0 \<and> dc = 0)" "(dr, dc) \<noteq> (0, 0)" using d by (auto simp: unit_dir_def)
  from walk_capture_run[OF sq org d, of team]
  show ?thesis
  proof (elim disjE conjE exE)
    assume "capture_run g team r c (dr, dc) = []"
      "walk g team dr dc (r + dr) (c + dc) False = Some NoCapture"
    then show ?thesis using nz by (simp add: direction_def)
  next
    fix j
    assume run: "capture_run g team r c (dr, dc) = map (ray_pos r c (dr, dc)) [1..<Suc j]"
      and w: "walk g team dr dc (r + dr) (c + dc) False
              = Some (Bracket (fst (ray_pos r c (dr, dc) (Suc j))) (snd (ray_pos r c (dr, dc) (Suc j))))"
    have "walk_back fp r c (- 1 * dr) (- 1 * dc)
            (fst (ray_pos r c (dr, dc) (Suc j))) (snd (ray_pos r c (dr, dc) (Suc j)))
          = Some (fp @ rev (map (ray_pos r c (dr, dc)) [1..<Suc j]))"
      using walk_back_ray[OF nz(2), of fp r c j] by simp
    then show ?thesis
      using nz w run by (simp add: direction_def del: mult_minus1)
  qed
qed

lemma direction_probe:
  assumes sq: "square_grid g" and org: "in_grid g r c" and d: "unit_dir (dr, dc)"
  shows "direction g r c team False dr dc fp
         = Inr (if capture_run g team r c (dr, dc) = [] then Next fp else Return 1)"
proof -
  have nz: "\<not> (dr = 0 \<and> dc = 0)" using d by (auto simp: unit_dir_def)
  from walk_capture_run[OF sq org d, of team]
  show ?thesis
    using nz by (auto simp: direction_def)
qed

lemma xrange_directions: "xrange (- 1) 2 = [- 1, 0, 1]"
  by code_simp

lemma unit_dirs:
  "unit_dir (- 1, - 1)" "unit_dir (- 1, 0)" "unit_dir (- 1, 1)" "unit_dir (0, - 1)"
  "unit_dir (0, 1)" "unit_dir (1, - 1)" "unit_dir (1, 0)" "unit_dir (1, 1)"
  by (simp_all add: unit_dir_def)

lemma direction_centre: "direction g r c team keep_score 0 0 fp = Inr (Next fp)"
  by (simp add: direction_def)

lemma for_dr_keep:
  assumes sq: "square_grid g" and org: "in_grid g r c"
  shows "for_dr g r c team True (xrange (- 1) 2) []
         = Inr (Next (concat (map (\<lambda>d. rev (capture_run g team r c d)) directions)))"
  by (simp add: xrange_directions directions_def direction_centre
      direction_keep[OF sq org] unit_dirs)

lemma for_dc_probe:
  assumes sq: "square_grid g" and org: "in_grid g r c"
    and dr: "dr \<in> {- 1, 0, 1}" and dcs: "set dcs \<subseteq> {- 1, 0, 1}"
  shows "for_dc g r c team False dr dcs fp
         = Inr (if \<forall>dc \<in> set dcs. (dr, dc) = (0, 0) \<or> capture_run g team r c (dr, dc) = []
                then Next fp else Return 1)"
  using dcs
proof (induction dcs)
  case Nil
  then show ?case by simp
next
  case (Cons dc dcs)
  show ?case
  proof (cases "(dr, dc) = (0, 0)")
    case True
    then show ?thesis using Cons by (simp add: direction_centre)
  next
    case False
    then have "unit_dir (dr, dc)" using dr Cons.prems by (auto simp: unit_dir_def)
    then show ?thesis
      using Cons False by (auto simp: direction_probe[OF sq org])
  qed
qed

lemma for_dr_probe_list:
  assumes sq: "square_grid g" and org: "in_grid g r c" and drs: "set drs \<subseteq> {- 1, 0, 1}"
  shows "for_dr g r c team False drs fp
         = Inr (if \<forall>dr \<in> set drs. \<forall>dc \<in> {- 1, 0, 1}.
                     (dr, dc) = (0, 0) \<or> capture_run g team r c (dr, dc) = []
                then Next fp else Return 1)"
  using drs
proof (induction drs)
  case Nil
  then show ?case by simp
next
  case (Cons dr drs)
  have "for_dc g r c team False dr (xrange (- 1) 2) fp
        = Inr (if \<forall>dc \<in> {- 1, 0, 1}. (dr, dc) = (0, 0) \<or> capture_run g team r c (dr, dc) = []
               then Next fp else Return 1)"
    using for_dc_probe[OF sq org, of dr "xrange (- 1) 2" team fp] Cons.prems
    by (simp add: xrange_directions)
  then show ?case
    using Cons by simp
qed

lemma for_dr_probe:
  assumes sq: "square_grid g" and org: "in_grid g r c"
  shows "for_dr g r c team False (xrange (- 1) 2) []
         = Inr (if \<forall>d \<in> set directions. capture_run g team r c d = [] then Next [] else Return 1)"
proof -
  have "(\<forall>dr \<in> set (xrange (- 1) 2). \<forall>dc \<in> {- 1, 0, 1}.
            (dr, dc) = (0, 0) \<or> capture_run g team r c (dr, dc) = [])
        \<longleftrightarrow> (\<forall>d \<in> set directions. capture_run g team r c d = [])"
    by (simp add: xrange_directions directions_def)
  then show ?thesis
    using for_dr_probe_list[OF sq org, of "xrange (- 1) 2" team "[]"]
    by (simp add: xrange_directions)
qed

lemma set_flip_pieces:
  "set (concat (map (\<lambda>d. rev (capture_run g team r c d)) directions)) = captures g team r c"
  by (auto simp: captures_def)

lemma captures_empty:
  "captures g team r c = {} \<longleftrightarrow> (\<forall>d \<in> set directions. capture_run g team r c d = [])"
  by (auto simp: captures_def)

lemma validate_flip_score:
  assumes sq: "square_grid (board b)" and org: "in_grid (board b) r c"
  shows "validate_flip b r c team False True = Inr (score (board b) team r c, b)"
proof -
  have "length (remdups (concat (map (\<lambda>d. rev (capture_run (board b) team r c d)) directions)))
        = card (captures (board b) team r c)"
    by (simp only: length_remdups_card_conv set_flip_pieces)
  then show ?thesis
    by (simp add: validate_flip_def for_dr_keep[OF sq org] Let_def score_def)
qed

lemma validate_flip_probe:
  assumes sq: "square_grid (board b)" and org: "in_grid (board b) r c"
  shows "validate_flip b r c team False False
         = Inr (if captures (board b) team r c = {} then 0 else 1, b)"
  by (simp add: validate_flip_def for_dr_probe[OF sq org] captures_empty)

subsection \<open>The capture run, square by square\<close>

text \<open>
  The capture run without lists: a square belongs to the run of a direction exactly
  when it lies strictly between \<open>(r, c)\<close> and a square of the side on that ray, and
  all squares strictly between the two are inside the grid and opposing.
\<close>

lemma capture_run_iff:
  assumes d: "unit_dir d" and org: "in_grid g r c"
  shows "p \<in> set (capture_run g side r c d) \<longleftrightarrow>
         (\<exists>k m. 1 \<le> k \<and> k < m \<and> p = ray_pos r c d k \<and>
            (\<forall>i. 1 \<le> i \<and> i < m \<longrightarrow>
               in_grid g (fst (ray_pos r c d i)) (snd (ray_pos r c d i)) \<and>
               opposing side (square_at g (ray_pos r c d i))) \<and>
            in_grid g (fst (ray_pos r c d m)) (snd (ray_pos r c d m)) \<and>
            square_at g (ray_pos r c d m) = side \<and> side \<noteq> blank)"
    (is "?lhs \<longleftrightarrow> ?rhs")
proof -
  let ?pos = "ray_pos r c d"
  let ?in = "\<lambda>p. in_grid g (fst p) (snd p)"
  let ?opp = "\<lambda>p. opposing side (square_at g p)"
  define ray where "ray = ray_squares g r c d"
  define run where "run = takeWhile ?opp ray"
  define L where "L = length ray"
  define j where "j = length run"
  have ray: "ray = map ?pos [1..<1 + L]"
    unfolding L_def ray_def ray_squares_def by (rule takeWhile_map_upt)
  have jL: "j \<le> L" unfolding j_def L_def run_def by (rule length_takeWhile_le)
  have run: "run = map ?pos [1..<Suc j]"
  proof -
    have "run = take j ray" unfolding j_def run_def by (rule takeWhile_eq_take)
    also have "\<dots> = map ?pos (take j [1..<1 + L])" by (subst ray) (simp add: take_map)
    also have "take j [1..<1 + L] = [1..<1 + j]" using jL by (intro take_upt) simp
    finally show ?thesis by simp
  qed
  have ray_nth: "ray ! i = ?pos (Suc i)" if "i < L" for i
    using that by (subst ray) (simp del: upt_Suc)
  have ray_in: "?in (?pos i)" if "1 \<le> i" "i \<le> L" for i
  proof -
    have "?pos i \<in> set ray" using that by (subst ray) (auto simp del: upt_Suc)
    then show ?thesis
      unfolding ray_def ray_squares_def by (rule set_takeWhileD[THEN conjunct2])
  qed
  have run_opp: "?opp (?pos i)" if "1 \<le> i" "i \<le> j" for i
  proof -
    have "?pos i \<in> set run" using that by (subst run) (auto simp del: upt_Suc)
    then show ?thesis
      unfolding run_def by (rule set_takeWhileD[THEN conjunct2])
  qed
  have ray_stop: "\<not> ?in (?pos (Suc L))"
  proof (cases "Suc L < length g")
    case True
    then have "length (takeWhile ?in (map ?pos [1..<length g])) < length (map ?pos [1..<length g])"
      unfolding L_def ray_def ray_squares_def by simp
    then have "\<not> ?in (map ?pos [1..<length g] ! L)"
      unfolding L_def ray_def ray_squares_def by (rule nth_length_takeWhile)
    then show ?thesis using True by (simp del: upt_Suc)
  next
    case False
    then show ?thesis using ray_pos_leaves[OF d org, of "Suc L"] by simp
  qed
  have run_stop: "\<not> ?opp (?pos (Suc j))" if "j < L"
  proof -
    have "length (takeWhile ?opp ray) < length ray" using that by (simp add: j_def run_def L_def)
    then have "\<not> ?opp (ray ! j)"
      unfolding j_def run_def by (rule nth_length_takeWhile)
    then show ?thesis using ray_nth[OF that] by simp
  qed
  have dropj: "drop j ray = map ?pos [Suc j..<Suc L]"
    by (subst ray) (simp add: drop_map drop_upt del: upt_Suc)
  have cr: "capture_run g side r c d =
      (case drop j ray of
         [] \<Rightarrow> []
       | p # _ \<Rightarrow> if square_at g p = blank then [] else if square_at g p = side then run else [])"
    by (simp only: capture_run_def Let_def ray_def[symmetric] run_def[symmetric] j_def[symmetric])
  have cr': "capture_run g side r c d =
      (if j < L \<and> square_at g (?pos (Suc j)) = side \<and> side \<noteq> blank then run else [])"
  proof (cases "j < L")
    case False
    then have "drop j ray = []" using dropj by simp
    then show ?thesis using False by (simp add: cr)
  next
    case True
    then have "[Suc j..<Suc L] = Suc j # [Suc (Suc j)..<Suc L]"
      by (intro upt_conv_Cons) simp
    then have "drop j ray = ?pos (Suc j) # map ?pos [Suc (Suc j)..<Suc L]"
      using dropj by (simp del: upt_Suc)
    then show ?thesis using True by (auto simp: cr)
  qed
  show ?thesis
  proof
    assume ?lhs
    then have c: "j < L" "square_at g (?pos (Suc j)) = side" "side \<noteq> blank" and "p \<in> set run"
      using cr' by (auto split: if_splits)
    then obtain k where k: "1 \<le> k" "k \<le> j" "p = ?pos k"
      by (subst (asm) run) (auto simp del: upt_Suc)
    have "?in (?pos (Suc j))" using ray_in[of "Suc j"] c(1) by simp
    moreover have "\<forall>i. 1 \<le> i \<and> i < Suc j \<longrightarrow> ?in (?pos i) \<and> ?opp (?pos i)"
      using ray_in run_opp jL by auto
    ultimately show ?rhs
      using k c by (intro exI[of _ k] exI[of _ "Suc j"]) simp
  next
    assume ?rhs
    then obtain k m where km: "1 \<le> k" "k < m" "p = ?pos k"
      and between: "\<forall>i. 1 \<le> i \<and> i < m \<longrightarrow> ?in (?pos i) \<and> ?opp (?pos i)"
      and stop: "?in (?pos m)" "square_at g (?pos m) = side" "side \<noteq> blank"
      by blast
    have mL: "m \<le> L"
    proof (rule ccontr)
      assume "\<not> m \<le> L"
      then have "1 \<le> Suc L" "Suc L \<le> m" by simp_all
      then have "?in (?pos (Suc L))" using between stop(1) by (cases "Suc L = m") auto
      then show False using ray_stop by simp
    qed
    have j_ge: "m \<le> Suc j"
    proof (rule ccontr)
      assume "\<not> m \<le> Suc j"
      then have "Suc j < m" by simp
      then have "j < L" "?opp (?pos (Suc j))" using mL between by auto
      then show False using run_stop by simp
    qed
    have j_le: "Suc j \<le> m"
    proof (rule ccontr)
      assume "\<not> Suc j \<le> m"
      then have "1 \<le> m" "m \<le> j" using km by simp_all
      then have "?opp (?pos m)" by (rule run_opp)
      then show False using stop(2) by (simp add: opposing_def)
    qed
    have m: "m = Suc j" using j_ge j_le by simp
    then have "capture_run g side r c d = run"
      using cr' mL stop by simp
    moreover have "p \<in> set run"
      using km m by (subst run) (auto simp del: upt_Suc)
    ultimately show ?lhs by simp
  qed
qed

section \<open>Validation and the move queries on an N by N grid\<close>

lemma validate_input_outside:
  "\<not> in_grid (board b) r c \<Longrightarrow> validate_input b r c team = Inr False"
  by (auto simp: validate_input_def in_grid_def)

lemma validate_input_wrong_turn:
  "turn b \<noteq> team \<Longrightarrow> validate_input b r c team = Inr False"
  by (auto simp: validate_input_def)

lemma validate_input_square:
  assumes "square_grid (board b)"
  shows "validate_input b r c team
         = Inr (in_grid (board b) r c \<and> turn b = team \<and> square_at (board b) (r, c) = blank)"
proof (cases "in_grid (board b) r c")
  case False
  then show ?thesis by (simp add: validate_input_outside)
next
  case True
  then have "cell (board b) r c = Inr (square_at (board b) (r, c))"
    using cell_in[OF assms True] by (simp add: square_at_def)
  then show ?thesis
    using True by (auto simp: validate_input_def in_grid_def)
qed

lemma flip_score_square:
  assumes "square_grid (board b)"
  shows "flip_score b r c team
         = Inr (if in_grid (board b) r c \<and> turn b = team \<and> square_at (board b) (r, c) = blank
                then score (board b) team r c else 0)"
  using assms
  by (auto simp: flip_score_def validate_input_square validate_flip_score)

lemma can_flip_square:
  assumes "square_grid (board b)"
  shows "can_flip b r c team = Inr (turn b = team \<and> capturing_square (board b) team r c)"
  using assms
  by (auto simp: can_flip_def validate_input_square validate_flip_probe capturing_square_def)

lemma return_true_if_any_pure:
  assumes "\<forall>x \<in> set xs. f x = Inr (P x)"
  shows "return_true_if_any f xs = Inr (\<exists>x \<in> set xs. P x)"
  using assms by (induction xs) auto

lemma can_move_square:
  assumes "square_grid (board b)"
  shows "can_move b team = Inr (turn b = team \<and> has_legal_move (board b) team)"
proof -
  let ?n = "int (length (board b))"
  have inner: "return_true_if_any (\<lambda>c. can_flip b r c team) (xrange 0 ?n)
      = Inr (\<exists>c \<in> set (xrange 0 ?n). turn b = team \<and> capturing_square (board b) team r c)" for r
    by (rule return_true_if_any_pure) (simp add: can_flip_square[OF assms])
  have "can_move b team
      = Inr (\<exists>r \<in> set (xrange 0 ?n). \<exists>c \<in> set (xrange 0 ?n).
               turn b = team \<and> capturing_square (board b) team r c)"
    unfolding can_move_def Let_def
    by (rule return_true_if_any_pure) (simp add: inner)
  then show ?thesis by (auto simp: has_legal_move_def)
qed

lemma has_legal_move_iff:
  "has_legal_move g side \<longleftrightarrow> (\<exists>r c. capturing_square g side r c)"
  by (auto simp: has_legal_move_def set_xrange capturing_square_def in_grid_def)

lemma can_move_other_turn: "turn b \<noteq> team \<Longrightarrow> can_move b team = Inr False"
proof -
  assume t: "turn b \<noteq> team"
  have cf: "can_flip b r c team = Inr False" for r c
    by (simp add: can_flip_def validate_input_wrong_turn[OF t])
  have inner: "return_true_if_any (\<lambda>c. can_flip b r c team) cs = Inr (\<exists>c \<in> set cs. False)" for r cs
    by (rule return_true_if_any_pure) (simp add: cf)
  have "can_move b team = Inr (\<exists>r \<in> set (xrange 0 (int (length (board b)))). False)"
    unfolding can_move_def Let_def
    by (rule return_true_if_any_pure) (simp add: inner)
  then show ?thesis by simp
qed

section \<open>Flipping the captured squares\<close>

lemma sum_list_map_update:
  fixes f :: "'a \<Rightarrow> nat"
  shows "i < length xs \<Longrightarrow> (\<Sum>x\<leftarrow>xs[i := y]. f x) + f (xs ! i) = (\<Sum>x\<leftarrow>xs. f x) + f y"
  by (induction xs arbitrary: i) (auto split: nat.splits)

lemma blank_count_update:
  assumes "i < length g" "j < length (g ! i)"
  shows "blank_count (g[i := (g ! i)[j := v]]) + (if g ! i ! j = blank then 1 else 0)
         = blank_count g + (if v = blank then 1 else 0)"
proof -
  let ?f = "\<lambda>row. \<Sum>s\<leftarrow>row. if s = blank then 1 else (0::nat)"
  have row: "?f ((g ! i)[j := v]) + (if g ! i ! j = blank then 1 else 0)
             = ?f (g ! i) + (if v = blank then 1 else 0)"
    using sum_list_map_update[OF assms(2), of "\<lambda>s. if s = blank then 1 else 0" v] by simp
  have "blank_count (g[i := (g ! i)[j := v]]) + ?f (g ! i) = blank_count g + ?f ((g ! i)[j := v])"
    unfolding blank_count_def using sum_list_map_update[OF assms(1), of ?f] by simp
  with row show ?thesis by linarith
qed

lemma square_at_update:
  assumes "square_grid g" "in_grid g x y" "in_grid g r c"
  shows "square_at (g[nat x := (g ! nat x)[nat y := v]]) (r, c)
         = (if (x, y) = (r, c) then v else square_at g (r, c))"
proof -
  have "nat x < length g" "nat r < length g" "nat c < length g" "nat y < length g"
    using assms(2,3) by (auto simp: in_grid_def)
  moreover have "length (g ! nat x) = length g"
    using assms(1) calculation(1) by (simp add: square_grid_row)
  moreover have "nat x = nat r \<longleftrightarrow> x = r" "nat y = nat c \<longleftrightarrow> y = c"
    using assms(2,3) by (auto simp: in_grid_def)
  ultimately show ?thesis
    by (auto simp: square_at_def nth_list_update)
qed

lemma set_cell_facts:
  assumes sq: "square_grid g" and p: "in_grid g x y"
  shows "\<exists>g'. set_cell g x y v = Inr g' \<and> square_grid g' \<and> length g' = length g \<and>
           (\<forall>r c. in_grid g r c \<longrightarrow>
              square_at g' (r, c) = (if (x, y) = (r, c) then v else square_at g (r, c))) \<and>
           blank_count g' + (if square_at g (x, y) = blank then 1 else 0)
             = blank_count g + (if v = blank then 1 else 0)"
proof -
  have i: "nat x < length g" and j: "nat y < length (g ! nat x)"
    using p sq by (auto simp: in_grid_def square_grid_row)
  have "square_grid (g[nat x := (g ! nat x)[nat y := v]])"
    using sq i by (intro square_grid_update) (simp_all add: square_grid_row)
  then show ?thesis
    using set_cell_in[OF sq p, of v] square_at_update[OF sq p] blank_count_update[OF i j, of v]
    by (simp add: square_at_def)
qed

lemma in_grid_same_length: "length g' = length g \<Longrightarrow> in_grid g' r c = in_grid g r c"
  by (simp add: in_grid_def)

lemma flip_pieces_loop_facts:
  assumes "square_grid g"
    and "\<forall>p \<in> set ps. in_grid g (fst p) (snd p) \<and> square_at g p \<noteq> blank"
    and "distinct ps"
  shows "\<exists>g'. flip_pieces_loop g ps = Inr g' \<and> square_grid g' \<and> length g' = length g \<and>
           blank_count g' = blank_count g \<and>
           (\<forall>r c. in_grid g r c \<longrightarrow> (r, c) \<notin> set ps \<longrightarrow> square_at g' (r, c) = square_at g (r, c))"
  using assms
proof (induction ps arbitrary: g)
  case Nil
  then show ?case by simp
next
  case (Cons p ps)
  obtain x y where p: "p = (x, y)" by (cases p)
  have inp: "in_grid g x y" and nb: "square_at g (x, y) \<noteq> blank"
    using Cons.prems(2) p by auto
  let ?v = "if square_at g (x, y) = white then black else white"
  have c: "cell g x y = Inr (square_at g (x, y))"
    using cell_in[OF Cons.prems(1) inp] by (simp add: square_at_def)
  obtain g1 where g1: "set_cell g x y ?v = Inr g1" "square_grid g1" "length g1 = length g"
    and g1_at: "\<forall>r c. in_grid g r c \<longrightarrow>
              square_at g1 (r, c) = (if (x, y) = (r, c) then ?v else square_at g (r, c))"
    and g1_count: "blank_count g1 + (if square_at g (x, y) = blank then 1 else 0)
             = blank_count g + (if ?v = blank then 1 else 0)"
    using set_cell_facts[OF Cons.prems(1) inp, of ?v] by blast
  have rest: "\<forall>q \<in> set ps. in_grid g1 (fst q) (snd q) \<and> square_at g1 q \<noteq> blank"
  proof
    fix q assume q: "q \<in> set ps"
    obtain qx qy where qq: "q = (qx, qy)" by (cases q)
    have ne: "(x, y) \<noteq> (qx, qy)" using Cons.prems(3) p q qq by auto
    have inq: "in_grid g qx qy" and nbq: "square_at g (qx, qy) \<noteq> blank"
      using Cons.prems(2) q qq by auto
    have "square_at g1 (qx, qy) = square_at g (qx, qy)"
      using g1_at[rule_format, OF inq] ne by simp
    then show "in_grid g1 (fst q) (snd q) \<and> square_at g1 q \<noteq> blank"
      using inq nbq qq by (simp add: in_grid_same_length[OF g1(3)])
  qed
  obtain g' where g': "flip_pieces_loop g1 ps = Inr g'" "square_grid g'" "length g' = length g1"
    "blank_count g' = blank_count g1"
    "\<forall>r c. in_grid g1 r c \<longrightarrow> (r, c) \<notin> set ps \<longrightarrow> square_at g' (r, c) = square_at g1 (r, c)"
    using Cons.IH[OF g1(2) rest] Cons.prems(3) by auto
  have "flip_pieces_loop g (p # ps) = Inr g'"
    unfolding p flip_pieces_loop.simps fst_conv snd_conv c sum.case g1(1) g'(1) ..
  moreover have "blank_count g' = blank_count g"
    using g'(4) g1_count nb by (simp split: if_splits)
  moreover have "\<forall>r c. in_grid g r c \<longrightarrow> (r, c) \<notin> set (p # ps) \<longrightarrow>
      square_at g' (r, c) = square_at g (r, c)"
  proof (intro allI impI)
    fix r c assume rc: "in_grid g r c" "(r, c) \<notin> set (p # ps)"
    then have "square_at g' (r, c) = square_at g1 (r, c)"
      using g'(5)[rule_format, of r c] by (simp add: in_grid_same_length[OF g1(3)])
    also have "\<dots> = square_at g (r, c)"
      using g1_at[rule_format, OF rc(1)] rc(2) p by auto
    finally show "square_at g' (r, c) = square_at g (r, c)" .
  qed
  ultimately show ?case
    using g'(2,3) g1(3) by auto
qed

lemma capture_run_squares:
  assumes "p \<in> set (capture_run g side r c d)"
  shows "in_grid g (fst p) (snd p) \<and> opposing side (square_at g p)"
proof -
  let ?ray = "ray_squares g r c d"
  let ?run = "takeWhile (\<lambda>p. opposing side (square_at g p)) ?ray"
  have "set (capture_run g side r c d) \<subseteq> set ?run"
    by (auto simp: capture_run_def Let_def split: list.splits if_splits)
  then have p: "p \<in> set ?run" using assms by auto
  then have "opposing side (square_at g p)" by (rule set_takeWhileD[THEN conjunct2])
  moreover have "p \<in> set ?ray" using p by (rule set_takeWhileD[THEN conjunct1])
  then have "in_grid g (fst p) (snd p)"
    unfolding ray_squares_def by (rule set_takeWhileD[THEN conjunct2])
  ultimately show ?thesis by simp
qed

lemma captures_squares:
  "p \<in> captures g side r c \<Longrightarrow> in_grid g (fst p) (snd p) \<and> opposing side (square_at g p)"
  by (auto simp: captures_def dest: capture_run_squares)

lemma captures_blank: "captures g blank r c = {}"
  by (auto simp: captures_def capture_run_def Let_def split: list.splits)

lemma flip_square:
  assumes sq: "square_grid (board b)" and org: "in_grid (board b) r c"
    and empty: "square_at (board b) (r, c) = blank"
  shows "\<exists>g'. flip b r c team = Inr (score (board b) team r c, b\<lparr>board := g'\<rparr>) \<and>
           square_grid g' \<and> length g' = length (board b) \<and>
           blank_count g' = blank_count (board b) \<and>
           square_at g' (r, c) = blank \<and>
           (captures (board b) team r c = {} \<longrightarrow> g' = board b)"
proof -
  let ?g = "board b"
  let ?fp = "concat (map (\<lambda>d. rev (capture_run ?g team r c d)) directions)"
  have set_fp: "set (remdups ?fp) = captures ?g team r c"
    by (simp only: set_remdups set_flip_pieces)
  have len: "int (length (remdups ?fp)) = score ?g team r c"
    by (simp only: length_remdups_card_conv set_flip_pieces score_def)
  have pieces: "\<forall>p \<in> set (remdups ?fp). in_grid ?g (fst p) (snd p) \<and> square_at ?g p \<noteq> blank"
    unfolding set_fp using captures_squares[of _ ?g team r c] by (auto simp: opposing_def)
  have notin: "(r, c) \<notin> set (remdups ?fp)"
    using pieces empty by auto
  obtain g' where g': "flip_pieces_loop ?g (remdups ?fp) = Inr g'" "square_grid g'"
    "length g' = length ?g" "blank_count g' = blank_count ?g"
    "\<forall>r c. in_grid ?g r c \<longrightarrow> (r, c) \<notin> set (remdups ?fp) \<longrightarrow> square_at g' (r, c) = square_at ?g (r, c)"
    using flip_pieces_loop_facts[OF sq pieces] by auto
  have "flip b r c team = Inr (score ?g team r c, b\<lparr>board := g'\<rparr>)"
    using g'(1) len by (simp add: flip_def validate_flip_def for_dr_keep[OF sq org] Let_def)
  moreover have "square_at g' (r, c) = blank"
    using g'(5) org notin empty by simp
  moreover have "captures ?g team r c = {} \<longrightarrow> g' = ?g"
  proof
    assume "captures ?g team r c = {}"
    then have "set (remdups ?fp) = {}" by (simp only: set_fp)
    then have "remdups ?fp = []" by (simp only: set_empty)
    with g'(1) have "flip_pieces_loop ?g [] = Inr g'" by (simp only:)
    then show "g' = ?g" by simp
  qed
  ultimately show ?thesis using g'(2,3,4) by blast
qed

section \<open>Placement and turn advancement on an N by N grid\<close>

lemma set_next_turn_square:
  assumes sq: "square_grid (board b)" and t: "turn b \<noteq> blank"
  shows "set_next_turn b = Inr (b\<lparr>turn := turn_after (board b) (turn b)\<rparr>)"
proof -
  have cm: "can_move (b\<lparr>turn := s\<rparr>) s = Inr (has_legal_move (board b) s)" for s
    using can_move_square[of "b\<lparr>turn := s\<rparr>" s] sq by simp
  show ?thesis
    using t by (cases "turn b") (auto simp: set_next_turn_def cm Let_def turn_after_def)
qed

lemma add_piece_rejected:
  assumes sq: "square_grid (board b)"
    and bad: "\<not> (in_grid (board b) r c \<and> turn b = team \<and> square_at (board b) (r, c) = blank \<and>
                 captures (board b) team r c \<noteq> {})"
  shows "add_piece b r c team = Inr (0, b)"
proof (cases "in_grid (board b) r c \<and> turn b = team \<and> square_at (board b) (r, c) = blank")
  case False
  then show ?thesis by (auto simp: add_piece_def validate_input_square[OF sq])
next
  case True
  then have nocap: "captures (board b) team r c = {}" using bad by simp
  obtain g' where g': "flip b r c team = Inr (score (board b) team r c, b\<lparr>board := g'\<rparr>)"
    "captures (board b) team r c = {} \<longrightarrow> g' = board b"
    using flip_square[OF sq, of r c team] True by blast
  have "score (board b) team r c = 0" using nocap by (simp add: score_def)
  then show ?thesis
    using True g' nocap by (simp add: add_piece_def validate_input_square[OF sq])
qed

lemma score_positive:
  "0 < score g team r c \<longleftrightarrow> captures g team r c \<noteq> {}"
proof -
  have "finite (captures g team r c)" by (simp add: captures_def)
  then show ?thesis by (auto simp: score_def card_gt_0_iff)
qed

lemma add_piece_accepted:
  assumes sq: "square_grid (board b)"
    and ok: "in_grid (board b) r c" "turn b = team" "square_at (board b) (r, c) = blank"
      "captures (board b) team r c \<noteq> {}"
  shows "\<exists>g'. add_piece b r c team
               = Inr (score (board b) team r c, \<lparr>board = g', turn = turn_after g' team\<rparr>) \<and>
           square_grid g' \<and> length g' = length (board b) \<and>
           blank_count g' < blank_count (board b) \<and> team \<noteq> blank"
proof -
  have team: "team \<noteq> blank" using ok(4) captures_blank by auto
  obtain g1 where g1: "flip b r c team = Inr (score (board b) team r c, b\<lparr>board := g1\<rparr>)"
    "square_grid g1" "length g1 = length (board b)" "blank_count g1 = blank_count (board b)"
    "square_at g1 (r, c) = blank"
    using flip_square[OF sq ok(1) ok(3), of team] by blast
  have in1: "in_grid g1 r c" using ok(1) by (simp add: in_grid_same_length[OF g1(3)])
  obtain g2 where g2: "set_cell g1 r c team = Inr g2" "square_grid g2" "length g2 = length g1"
    "blank_count g2 + (if square_at g1 (r, c) = blank then 1 else 0)
       = blank_count g1 + (if team = blank then 1 else 0)"
    using set_cell_facts[OF g1(2) in1, of team] by blast
  have nt: "set_next_turn \<lparr>board = g2, turn = team\<rparr>
            = Inr \<lparr>board = g2, turn = turn_after g2 team\<rparr>"
    using set_next_turn_square[of "\<lparr>board = g2, turn = team\<rparr>"] g2(2) team by simp
  have pts: "score (board b) team r c \<noteq> 0" using ok(4) score_positive[of "board b" team r c] by simp
  have b1: "b\<lparr>board := g1\<rparr> = \<lparr>board = g1, turn = team\<rparr>" using ok(2) by (cases b) simp
  have "add_piece b r c team = Inr (score (board b) team r c, \<lparr>board = g2, turn = turn_after g2 team\<rparr>)"
    using ok g1(1) g2(1) nt pts
    by (simp add: add_piece_def validate_input_square[OF sq] b1)
  moreover have "blank_count g2 < blank_count (board b)"
    using g2(4) g1(4,5) team by simp
  ultimately show ?thesis using g2(2,3) g1(3) team by auto
qed

section \<open>Placement on any grid: the number of blank squares\<close>

text \<open>
  These facts need no assumption on the shape of the grid: whenever \<^verbatim>\<open>add_piece\<close>
  returns with a positive count, the grid has fewer blank squares than before.
\<close>

definition has_square :: "nat \<Rightarrow> nat \<Rightarrow> grid \<Rightarrow> bool" where
  "has_square R C g = (R < length g \<and> C < length (g ! R))"

definition pot :: "nat \<Rightarrow> nat \<Rightarrow> grid \<Rightarrow> nat" where
  "pot R C g = blank_count g + (if g ! R ! C = blank then 0 else 1)"

lemma py_index_Some:
  "py_index n x = Some i \<Longrightarrow> i < n \<and> (0 \<le> x \<longrightarrow> i = nat x)"
  by (auto simp: py_index_def split: if_splits)

lemma set_cell_general:
  assumes "set_cell g x y v = Inr g'"
  shows "\<exists>i j. i < length g \<and> j < length (g ! i) \<and> g' = g[i := (g ! i)[j := v]] \<and>
           (0 \<le> x \<longrightarrow> i = nat x) \<and> (0 \<le> y \<longrightarrow> j = nat y)"
proof -
  from assms obtain i where i: "py_index (length g) x = Some i"
    by (auto simp: set_cell_def py_get_def split: option.splits sum.splits)
  with assms obtain j where j: "py_index (length (g ! i)) y = Some j"
    by (auto simp: set_cell_def py_get_def py_set_def split: option.splits sum.splits)
  have "g' = g[i := (g ! i)[j := v]]"
    using assms i j by (simp add: set_cell_def py_get_def py_set_def)
  then show ?thesis
    using py_index_Some[OF i] py_index_Some[OF j] by blast
qed

lemma cell_general:
  assumes "cell g x y = Inr s" "0 \<le> x" "0 \<le> y"
  shows "has_square (nat x) (nat y) g \<and> g ! nat x ! nat y = s"
proof -
  from assms obtain i where i: "py_index (length g) x = Some i"
    by (auto simp: cell_def py_get_def split: option.splits sum.splits)
  with assms obtain j where j: "py_index (length (g ! i)) y = Some j"
    by (auto simp: cell_def py_get_def split: option.splits sum.splits)
  have "g ! i ! j = s" using assms i j by (simp add: cell_def py_get_def)
  then show ?thesis
    using py_index_Some[OF i] py_index_Some[OF j] assms(2,3) by (auto simp: has_square_def)
qed

lemma pot_step:
  assumes "has_square R C g" "i < length g" "j < length (g ! i)" "v \<noteq> blank"
  shows "pot R C (g[i := (g ! i)[j := v]]) \<le> pot R C g \<and> has_square R C (g[i := (g ! i)[j := v]])
         \<and> ((i, j) = (R, C) \<longrightarrow> blank_count (g[i := (g ! i)[j := v]]) < pot R C g)"
proof -
  let ?g' = "g[i := (g ! i)[j := v]]"
  have bc: "blank_count ?g' + (if g ! i ! j = blank then 1 else 0) = blank_count g"
    using blank_count_update[OF assms(2,3), of v] assms(4) by simp
  have at: "?g' ! R ! C = (if (i, j) = (R, C) then v else g ! R ! C)"
    using assms(1,2,3) by (auto simp: has_square_def nth_list_update)
  have hs: "has_square R C ?g'"
    using assms(1,2) by (cases "i = R") (auto simp: has_square_def)
  show ?thesis
    using bc at hs assms(4) by (auto simp: pot_def split: if_splits)
qed

lemma flip_pieces_loop_pot:
  assumes "flip_pieces_loop g ps = Inr g'" "has_square R C g"
  shows "pot R C g' \<le> pot R C g \<and> has_square R C g'"
  using assms
proof (induction ps arbitrary: g)
  case Nil
  then show ?case by simp
next
  case (Cons p ps)
  from Cons.prems(1) obtain s g1 where
    g1: "set_cell g (fst p) (snd p) (if s = white then black else white) = Inr g1"
    and rest: "flip_pieces_loop g1 ps = Inr g'"
    by (auto split: sum.splits)
  obtain i j where ij: "i < length g" "j < length (g ! i)"
    "g1 = g[i := (g ! i)[j := (if s = white then black else white)]]"
    using set_cell_general[OF g1] by blast
  have "pot R C g1 \<le> pot R C g \<and> has_square R C g1"
    using pot_step[OF Cons.prems(2) ij(1,2), of "if s = white then black else white"] ij(3) by simp
  then show ?case
    using Cons.IH[OF rest] by force
qed

lemma set_next_turn_board: "set_next_turn b = Inr b' \<Longrightarrow> board b' = board b"
  by (auto simp: set_next_turn_def Let_def split: sum.splits if_splits)

lemma flip_pot:
  assumes "flip b r c team = Inr (points, b1)" "has_square R C (board b)"
  shows "pot R C (board b1) \<le> pot R C (board b) \<and> has_square R C (board b1) \<and> turn b1 = turn b"
  using assms flip_pieces_loop_pot[of "board b" _ _ R C]
  by (auto simp: flip_def validate_flip_def Let_def split: sum.splits flow.splits)

lemma set_cell_blank_count:
  assumes "set_cell g x y v = Inr g'" "v \<noteq> blank"
  shows "blank_count g' \<le> blank_count g"
proof -
  obtain i j where ij: "i < length g" "j < length (g ! i)" "g' = g[i := (g ! i)[j := v]]"
    using set_cell_general[OF assms(1)] by blast
  show ?thesis
    using blank_count_update[OF ij(1,2), of v] assms(2) ij(3) by (simp split: if_splits)
qed

lemma flip_pieces_loop_blank_count:
  "flip_pieces_loop g ps = Inr g' \<Longrightarrow> blank_count g' \<le> blank_count g"
proof (induction ps arbitrary: g)
  case Nil
  then show ?case by simp
next
  case (Cons p ps)
  from Cons.prems obtain s g1 where
    g1: "set_cell g (fst p) (snd p) (if s = white then black else white) = Inr g1"
    and rest: "flip_pieces_loop g1 ps = Inr g'"
    by (auto split: sum.splits)
  have "blank_count g1 \<le> blank_count g"
    using set_cell_blank_count[OF g1] by simp
  then show ?case using Cons.IH[OF rest] by simp
qed

lemma flip_blank_count:
  assumes "flip b r c team = Inr (points, b1)"
  shows "blank_count (board b1) \<le> blank_count (board b)"
  using assms flip_pieces_loop_blank_count[of "board b"]
  by (auto simp: flip_def validate_flip_def Let_def split: sum.splits flow.splits)

lemma validate_input_True:
  assumes "validate_input b r c team = Inr True"
  shows "0 \<le> r \<and> 0 \<le> c \<and> turn b = team \<and> cell (board b) r c = Inr blank"
  using assms by (auto simp: validate_input_def Let_def split: if_splits sum.splits)

lemma add_piece_blank_count:
  assumes ap: "add_piece b r c team = Inr (points, b')" and team: "team \<noteq> blank"
  shows "blank_count (board b') \<le> blank_count (board b)"
    and "points \<noteq> 0 \<Longrightarrow> blank_count (board b') < blank_count (board b)"
proof -
  consider (rejected) "validate_input b r c team = Inr False" "b' = b" "points = 0"
    | (nothing) b1 where "validate_input b r c team = Inr True" "flip b r c (turn b) = Inr (0, b1)"
        "b' = b1" "points = 0"
    | (placed) b1 g2 where "validate_input b r c team = Inr True"
        "flip b r c (turn b) = Inr (points, b1)" "points \<noteq> 0"
        "set_cell (board b1) r c (turn b1) = Inr g2" "set_next_turn (b1\<lparr>board := g2\<rparr>) = Inr b'"
    using ap by (auto simp: add_piece_def split: sum.splits if_splits)
  note cases = this
  show "blank_count (board b') \<le> blank_count (board b)"
  proof (cases rule: cases)
    case rejected
    then show ?thesis by simp
  next
    case (nothing b1)
    then show ?thesis using flip_blank_count by simp
  next
    case (placed b1 g2)
    have "turn b = team"
      using validate_input_True[OF placed(1)] by simp
    moreover have "turn b1 = turn b"
      using placed(2) by (auto simp: flip_def validate_flip_def Let_def split: sum.splits flow.splits)
    ultimately have "blank_count g2 \<le> blank_count (board b1)"
      using set_cell_blank_count[OF placed(4)] team by simp
    also have "\<dots> \<le> blank_count (board b)"
      using flip_blank_count[OF placed(2)] .
    finally show ?thesis
      using set_next_turn_board[OF placed(5)] by simp
  qed
  show "blank_count (board b') < blank_count (board b)" if "points \<noteq> 0"
  proof (cases rule: cases)
    case rejected
    then show ?thesis using that by simp
  next
    case (nothing b1)
    then show ?thesis using that by simp
  next
    case (placed b1 g2)
    have vi: "0 \<le> r" "0 \<le> c" "turn b = team" "cell (board b) r c = Inr blank"
      using validate_input_True[OF placed(1)] by simp_all
    have sq: "has_square (nat r) (nat c) (board b)" "board b ! nat r ! nat c = blank"
      using cell_general[OF vi(4) vi(1,2)] by simp_all
    have f: "pot (nat r) (nat c) (board b1) \<le> pot (nat r) (nat c) (board b)"
      "has_square (nat r) (nat c) (board b1)" "turn b1 = turn b"
      using flip_pot[OF placed(2) sq(1)] by simp_all
    obtain i j where ij: "i < length (board b1)" "j < length (board b1 ! i)"
      "g2 = (board b1)[i := (board b1 ! i)[j := turn b1]]" "i = nat r" "j = nat c"
      using set_cell_general[OF placed(4)] vi(1,2) by blast
    have "blank_count g2 < pot (nat r) (nat c) (board b1)"
      using pot_step[OF f(2) ij(1,2), of "turn b1"] ij(3,4,5) f(3) vi(3) team by simp
    also have "\<dots> \<le> pot (nat r) (nat c) (board b)" by (rule f(1))
    also have "\<dots> = blank_count (board b)" using sq(2) by (simp add: pot_def)
    finally show ?thesis
      using set_next_turn_board[OF placed(5)] by simp
  qed
qed

lemma add_piece_points:
  assumes "flip_score b r c team = Inr s" "add_piece b r c team = Inr (points, b')"
  shows "points = s"
proof -
  have vi: "validate_input b r c team = Inr True \<or> validate_input b r c team = Inr False"
    using assms(1) by (auto simp: flip_score_def split: sum.splits)
  then show ?thesis
  proof
    assume f: "validate_input b r c team = Inr False"
    then show ?thesis using assms by (simp add: flip_score_def add_piece_def)
  next
    assume t: "validate_input b r c team = Inr True"
    then have tb: "turn b = team" using validate_input_True by blast
    show ?thesis
      using assms t tb
      by (auto simp: flip_score_def add_piece_def flip_def validate_flip_def Let_def
          split: sum.splits flow.splits if_splits)
  qed
qed

section \<open>The move enumerator on any grid\<close>

lemma for_each_cong [fundef_cong]:
  "xs = ys \<Longrightarrow> s = t \<Longrightarrow> (\<And>x a. x \<in> set ys \<Longrightarrow> f a x = g a x)
   \<Longrightarrow> for_each f s xs = for_each g t ys"
proof -
  assume "xs = ys" "s = t" and fg: "\<And>x a. x \<in> set ys \<Longrightarrow> f a x = g a x"
  have "for_each f a ys = for_each g a ys" for a
    using fg by (induction ys arbitrary: a) (auto split: sum.splits)
  then show ?thesis using \<open>xs = ys\<close> \<open>s = t\<close> by simp
qed

lemma for_each_invariant:
  assumes "for_each f s xs = Inr t" "P s"
    and "\<And>a x a'. x \<in> set xs \<Longrightarrow> P a \<Longrightarrow> f a x = Inr a' \<Longrightarrow> P a'"
  shows "P t"
  using assms
proof (induction xs arbitrary: s)
  case Nil
  then show ?case by simp
next
  case (Cons x xs)
  from Cons.prems(1) obtain s' where s': "f s x = Inr s'" "for_each f s' xs = Inr t"
    by (auto split: sum.splits)
  have "P s'" using Cons.prems(3)[OF _ Cons.prems(2) s'(1)] by simp
  then show ?case
    using Cons.IH[OF s'(2)] Cons.prems(3) by auto
qed

lemma for_each_unchanged:
  assumes "\<And>a x. x \<in> set xs \<Longrightarrow> f a x = Inr a"
  shows "for_each f s xs = Inr s"
  using assms by (induction xs) auto

lemma flip_score_wrong_turn: "turn b \<noteq> team \<Longrightarrow> flip_score b r c team = Inr 0"
  by (simp add: flip_score_def validate_input_wrong_turn)

lemma set_sorted_reverse: "set (sorted_reverse k xs) = set xs"
  by (simp add: sorted_reverse_def)

lemma get_moves_wrong_turn:
  assumes "turn b \<noteq> team"
  shows "get_moves b team = Inr []"
proof -
  have inner: "for_each (\<lambda>valid_moves c.
                  case flip_score b r c team of
                    Inl e \<Rightarrow> Inl e
                  | Inr s \<Rightarrow> Inr (if s \<noteq> 0 then valid_moves @ [(r, c, s)] else valid_moves))
                a cs = Inr a" for r a cs
    by (rule for_each_unchanged) (simp add: flip_score_wrong_turn[OF assms])
  have "for_each (\<lambda>valid_moves r.
              for_each (\<lambda>valid_moves c.
                  case flip_score b r c team of
                    Inl e \<Rightarrow> Inl e
                  | Inr s \<Rightarrow> Inr (if s \<noteq> 0 then valid_moves @ [(r, c, s)] else valid_moves))
                valid_moves (xrange 0 (get_size b)))
            [] (xrange 0 (get_size b)) = Inr []"
    by (rule for_each_unchanged) (simp add: inner)
  then show ?thesis by (simp add: get_moves_def sorted_reverse_def)
qed

lemma get_moves_scores:
  assumes "get_moves b team = Inr ms" "m \<in> set ms"
  shows "flip_score b (fst m) (fst (snd m)) team = Inr (snd (snd m)) \<and> snd (snd m) \<noteq> 0"
proof -
  let ?P = "\<lambda>vm. \<forall>m \<in> set vm. flip_score b (fst m) (fst (snd m)) team = Inr (snd (snd m)) \<and> snd (snd m) \<noteq> 0"
  let ?inner = "\<lambda>r valid_moves c.
                  case flip_score b r c team of
                    Inl e \<Rightarrow> Inl e
                  | Inr s \<Rightarrow> Inr (if s \<noteq> 0 then valid_moves @ [(r, c, s)] else valid_moves)"
  from assms(1) obtain vm where
    vm: "for_each (\<lambda>valid_moves r. for_each (?inner r) valid_moves (xrange 0 (get_size b)))
           [] (xrange 0 (get_size b)) = Inr vm"
    and ms: "ms = sorted_reverse move_score vm"
    by (auto simp: get_moves_def split: sum.splits)
  have inner: "?P a'" if "for_each (?inner r) a cs = Inr a'" "?P a" for r a a' cs
    using that
    by (rule for_each_invariant) (auto split: sum.splits if_splits)
  have "?P vm"
    using vm
  proof (rule for_each_invariant)
    show "?P []" by simp
  next
    fix a x a'
    assume "?P a" "for_each (?inner x) a (xrange 0 (get_size b)) = Inr a'"
    then show "?P a'" using inner by blast
  qed
  then show ?thesis
    using assms(2) ms by (simp add: set_sorted_reverse)
qed

section \<open>The strategies on an empty list of moves\<close>

lemma py_get_Nil: "py_get [] i = Inl IndexError"
  by (simp add: py_get_def py_index_def)

lemma xrange_empty: "xrange 0 0 = []"
  by (simp add: xrange_def)

lemma weight_moves_thirds_Nil: "weight_moves_thirds [] weights rnd = Inl IndexError"
  by (simp add: weight_moves_thirds_def xrange_empty bisect_def bisect_loop.simps py_get_Nil)

section \<open>The move enumerator on an N by N grid\<close>

lemma for_each_append:
  assumes "\<And>a x. x \<in> set xs \<Longrightarrow> f a x = Inr (a @ h x)"
  shows "for_each f a xs = Inr (a @ concat (map h xs))"
  using assms by (induction xs arbitrary: a) auto

definition scan_row :: "grid Board \<Rightarrow> square \<Rightarrow> int \<Rightarrow> move list" where
  "scan_row b team r =
     concat (map (\<lambda>c. if capturing_square (board b) team r c \<and> turn b = team
                         then [(r, c, score (board b) team r c)] else [])
       (xrange 0 (get_size b)))"

definition scan_grid :: "grid Board \<Rightarrow> square \<Rightarrow> move list" where
  "scan_grid b team = concat (map (scan_row b team) (xrange 0 (get_size b)))"

lemma get_moves_scan_grid:
  assumes sq: "square_grid (board b)"
  shows "get_moves b team = Inr (sorted_reverse move_score (scan_grid b team))"
proof -
  have body: "(case flip_score b r c team of
                 Inl e \<Rightarrow> Inl e
               | Inr s \<Rightarrow> Inr (if s \<noteq> 0 then a @ [(r, c, s)] else a))
        = Inr (a @ (if capturing_square (board b) team r c \<and> turn b = team
                    then [(r, c, score (board b) team r c)] else []))" for r c a
    using score_positive[of "board b" team r c]
    by (auto simp: flip_score_square[OF sq] capturing_square_def score_def)
  have inner: "for_each (\<lambda>valid_moves c.
                  case flip_score b r c team of
                    Inl e \<Rightarrow> Inl e
                  | Inr s \<Rightarrow> Inr (if s \<noteq> 0 then valid_moves @ [(r, c, s)] else valid_moves))
                a (xrange 0 (get_size b)) = Inr (a @ scan_row b team r)" for r a
    unfolding scan_row_def by (rule for_each_append) (rule body)
  have "for_each (\<lambda>valid_moves r.
              for_each (\<lambda>valid_moves c.
                  case flip_score b r c team of
                    Inl e \<Rightarrow> Inl e
                  | Inr s \<Rightarrow> Inr (if s \<noteq> 0 then valid_moves @ [(r, c, s)] else valid_moves))
                valid_moves (xrange 0 (get_size b)))
            [] (xrange 0 (get_size b)) = Inr ([] @ scan_grid b team)"
    unfolding scan_grid_def by (rule for_each_append) (rule inner)
  then show ?thesis by (simp add: get_moves_def)
qed

lemma set_scan_grid:
  "(r, c, s) \<in> set (scan_grid b team) \<longleftrightarrow>
     capturing_square (board b) team r c \<and> turn b = team \<and> s = score (board b) team r c"
  by (auto simp: scan_grid_def scan_row_def set_xrange get_size_def capturing_square_def in_grid_def
      split: if_splits)

lemma sorted_wrt_concat_map:
  assumes "sorted_wrt (<) (xs :: int list)"
    and "\<forall>x \<in> set xs. sorted_wrt R (h x)"
    and "\<forall>x \<in> set xs. \<forall>y \<in> set xs. x < y \<longrightarrow> (\<forall>u \<in> set (h x). \<forall>v \<in> set (h y). R u v)"
  shows "sorted_wrt R (concat (map h xs))"
  using assms
proof (induction xs)
  case Nil
  then show ?case by simp
next
  case (Cons a xs)
  have "sorted_wrt R (concat (map h xs))"
    using Cons by simp
  moreover have "\<forall>u \<in> set (h a). \<forall>v \<in> set (concat (map h xs)). R u v"
    using Cons.prems(1,3) by auto
  ultimately show ?case
    using Cons.prems(2) by (simp add: sorted_wrt_append)
qed

lemma sorted_wrt_xrange: "sorted_wrt (<) (xrange a b)"
  by (simp add: xrange_def strict_sorted_iff)

lemma scan_row_rows: "m \<in> set (scan_row b team r) \<Longrightarrow> fst m = r"
  by (auto simp: scan_row_def split: if_splits)

lemma scan_row_sorted: "sorted_wrt row_major_before (scan_row b team r)"
  unfolding scan_row_def
  by (rule sorted_wrt_concat_map[OF sorted_wrt_xrange]) (auto simp: row_major_before_def)

lemma scan_grid_sorted: "sorted_wrt row_major_before (scan_grid b team)"
  unfolding scan_grid_def
proof (rule sorted_wrt_concat_map[OF sorted_wrt_xrange])
  show "\<forall>x \<in> set (xrange 0 (get_size b)). sorted_wrt row_major_before (scan_row b team x)"
    by (simp add: scan_row_sorted)
next
  show "\<forall>x \<in> set (xrange 0 (get_size b)). \<forall>y \<in> set (xrange 0 (get_size b)). x < y \<longrightarrow>
          (\<forall>u \<in> set (scan_row b team x). \<forall>v \<in> set (scan_row b team y). row_major_before u v)"
    using scan_row_rows[of _ b team] by (auto simp: row_major_before_def)
qed

lemma sorted_reverse_descending:
  "sorted_wrt (\<lambda>m m'. k m \<ge> k m') (sorted_reverse k (xs :: 'a list))"
proof -
  have "sorted (map (\<lambda>x. - k x) (sorted_reverse k xs))"
    unfolding sorted_reverse_def by (rule sorted_sort_key)
  then show ?thesis
    by (simp add: sorted_map sorted_wrt_iff_nth_less)
qed

lemma sorted_reverse_stable:
  "filter (\<lambda>m. k m = v) (sorted_reverse k xs) = filter (\<lambda>m. k m = v) xs"
proof -
  have "filter (\<lambda>m. - k m = - v) (sort_key (\<lambda>x. - k x) xs) = filter (\<lambda>m. - k m = - v) xs"
    by (rule sort_key_stable)
  then show ?thesis by (simp add: sorted_reverse_def)
qed

lemma row_major_distinct:
  assumes "sorted_wrt row_major_before ms"
  shows "distinct (map (\<lambda>m. (fst m, fst (snd m))) ms)"
  using assms by (induction ms) (auto simp: row_major_before_def)

section \<open>The Strong strategy\<close>

text \<open>
  The \<^verbatim>\<open>while\<close> loop of \<^verbatim>\<open>strong_move_recurse\<close> that plays white's first listed move
  as long as the turn is white. Its state is the copied board and the variable
  \<^verbatim>\<open>num_moves_left\<close> of the enclosing function, which it sets to 1 when the game
  ends. Every listed move fills a blank square, which is why the loop ends.
\<close>

function white_replies :: "grid Board \<Rightarrow> int \<Rightarrow> failure + (grid Board \<times> int)" where
  "white_replies new_board num_moves_left =
     (if get_turn new_board = white then
        (case get_moves new_board white of
           Inl e \<Rightarrow> Inl e
         | Inr white_moves \<Rightarrow>
             (case py_get white_moves 0 of
                Inl e \<Rightarrow> Inl e
              | Inr white_move \<Rightarrow>
                  (case add_piece new_board (fst white_move) (fst (snd white_move)) white of
                     Inl e \<Rightarrow> Inl e
                   | Inr (points, new_board') \<Rightarrow>
                       white_replies new_board'
                         (if get_turn new_board' = blank then 1 else num_moves_left))))
      else Inr (new_board, num_moves_left))"
  by pat_completeness auto

lemma py_get_member: "py_get xs i = Inr x \<Longrightarrow> x \<in> set xs"
  by (auto simp: py_get_def dest!: py_index_Some split: option.splits)

lemma listed_move_fills_square:
  assumes "get_moves b team = Inr ms" "m \<in> set ms" "team \<noteq> blank"
    and "add_piece b (fst m) (fst (snd m)) team = Inr (points, b')"
  shows "blank_count (board b') < blank_count (board b)"
proof -
  have "flip_score b (fst m) (fst (snd m)) team = Inr (snd (snd m))" "snd (snd m) \<noteq> 0"
    using get_moves_scores[OF assms(1,2)] by simp_all
  then have "points \<noteq> 0" using add_piece_points[OF _ assms(4)] by simp
  then show ?thesis using add_piece_blank_count(2)[OF assms(4,3)] by simp
qed

termination white_replies
proof (relation "measure (\<lambda>(b, n). blank_count (board b))")
  show "wf (measure (\<lambda>(b, n). blank_count (board b)))" by simp
next
  fix new_board :: "grid Board" and num_moves_left :: int and white_moves white_move x2 points new_board'
  assume "get_moves new_board white = Inr white_moves" "py_get white_moves 0 = Inr white_move"
    "add_piece new_board (fst white_move) (fst (snd white_move)) white = Inr x2"
    "(points, new_board') = x2"
  then have "blank_count (board new_board') < blank_count (board new_board)"
    using listed_move_fills_square[of new_board white white_moves white_move points new_board']
      py_get_member[of white_moves 0 white_move] by simp
  then show "((new_board', if get_turn new_board' = blank then 1 else num_moves_left),
              new_board, num_moves_left) \<in> measure (\<lambda>(b, n). blank_count (board b))"
    by simp
qed

declare white_replies.simps [simp del]

lemma white_replies_blank_count:
  "white_replies b n = Inr (b', n') \<Longrightarrow> blank_count (board b') \<le> blank_count (board b)"
proof (induction b n rule: white_replies.induct)
  case (1 new_board num_moves_left)
  show ?case
  proof (cases "get_turn new_board = white")
    case False
    then show ?thesis using 1(2) by (subst (asm) white_replies.simps) simp
  next
    case True
    from 1(2) True obtain white_moves white_move points nb where
      s: "get_moves new_board white = Inr white_moves" "py_get white_moves 0 = Inr white_move"
      "add_piece new_board (fst white_move) (fst (snd white_move)) white = Inr (points, nb)"
      "white_replies nb (if get_turn nb = blank then 1 else num_moves_left) = Inr (b', n')"
      by (subst (asm) white_replies.simps) (auto split: sum.splits)
    have "blank_count (board b') \<le> blank_count (board nb)"
      using 1(1)[OF True s(1) s(2) s(3) refl s(4)] .
    moreover have "blank_count (board nb) < blank_count (board new_board)"
      using listed_move_fills_square[OF s(1) _ _ s(3)] py_get_member[OF s(2)] by simp
    ultimately show ?thesis by simp
  qed
qed

text \<open>
  \<^verbatim>\<open>strong_move_recurse\<close>. The state of the \<^verbatim>\<open>for\<close> loop over the valid moves is the
  pair of \<^verbatim>\<open>num_moves_left\<close> and \<^verbatim>\<open>move_results\<close>: the loop assigns to
  \<^verbatim>\<open>num_moves_left\<close>, a variable of the function, so an assignment made for one move
  is still in force for the moves after it. \<^verbatim>\<open>deepcopy\<close> is the identity on values.
\<close>

function strong_move_recurse ::
  "grid Board \<Rightarrow> int \<Rightarrow> move option \<Rightarrow> failure + (move option \<times> int)" where
  "strong_move_recurse b num_moves_left move =
     (if num_moves_left = 0 then
        (case num_pieces b black of Inl e \<Rightarrow> Inl e | Inr k \<Rightarrow> Inr (move, k))
      else
        (case get_moves b black of
           Inl e \<Rightarrow> Inl e
         | Inr valid_moves \<Rightarrow>
             (case for_each (\<lambda>st move.
                      case add_piece b (fst move) (fst (snd move)) black of
                        Inl e \<Rightarrow> Inl e
                      | Inr (points, new_board) \<Rightarrow>
                          (case white_replies new_board
                                  (if get_turn new_board = blank then 1 else fst st) of
                             Inl e \<Rightarrow> Inl e
                           | Inr (new_board', num_moves_left') \<Rightarrow>
                               (case strong_move_recurse new_board' (num_moves_left' - 1) (Some move) of
                                  Inl e \<Rightarrow> Inl e
                                | Inr move_result \<Rightarrow>
                                    Inr (num_moves_left', snd st @ [(move, snd move_result)]))))
                    (num_moves_left, []) valid_moves of
                Inl e \<Rightarrow> Inl e
              | Inr (num_moves_left', move_results) \<Rightarrow>
                  (case py_get (sorted_reverse snd move_results) 0 of
                     Inl e \<Rightarrow> Inl e
                   | Inr best_move \<Rightarrow> Inr (Some (fst best_move), snd best_move)))))"
  by pat_completeness auto
termination
proof (relation "measure (\<lambda>(b, n, m). blank_count (board b))")
  show "wf (measure (\<lambda>(b, n, m). blank_count (board b)))" by simp
next
  fix b :: "grid Board" and num_moves_left :: int and move :: "move option"
    and valid_moves mv and st :: "int \<times> (move \<times> int) list" and x2 points new_board x2a new_board' num_moves_left'
  assume "get_moves b black = Inr valid_moves" "mv \<in> set valid_moves"
    "add_piece b (fst mv) (fst (snd mv)) black = Inr x2" "(points, new_board) = x2"
    "white_replies new_board (if get_turn new_board = blank then 1 else fst st) = Inr x2a"
    "(new_board', num_moves_left') = x2a"
  then have "blank_count (board new_board) < blank_count (board b)"
    "blank_count (board new_board') \<le> blank_count (board new_board)"
    using listed_move_fills_square[of b black valid_moves mv points new_board]
      white_replies_blank_count[of new_board "if get_turn new_board = blank then 1 else fst st"
        new_board' num_moves_left']
    by simp_all
  then show "((new_board', num_moves_left' - 1, Some mv), b, num_moves_left, move)
      \<in> measure (\<lambda>(b, n, m). blank_count (board b))"
    by simp
qed

declare strong_move_recurse.simps [simp del]

definition strong_move :: "grid Board \<Rightarrow> failure + move option" where
  "strong_move b =
     (case strong_move_recurse b 3 None of
        Inl e \<Rightarrow> Inl e
      | Inr our_move \<Rightarrow> Inr (fst our_move))"


section \<open>The search in the words of the specification\<close>

text \<open>
  The search as the specification words it: a branch that reaches the end of the game
  is cut short, and every candidate starts from the remaining depth that the call was
  given. The loop state holds \<^verbatim>\<open>move_results\<close> only.
\<close>

function search_per_branch ::
  "grid Board \<Rightarrow> int \<Rightarrow> move option \<Rightarrow> failure + (move option \<times> int)" where
  "search_per_branch b depth last_move =
     (if depth = 0 then
        (case num_pieces b black of Inl e \<Rightarrow> Inl e | Inr k \<Rightarrow> Inr (last_move, k))
      else
        (case get_moves b black of
           Inl e \<Rightarrow> Inl e
         | Inr valid_moves \<Rightarrow>
             (case for_each (\<lambda>move_results move.
                      case add_piece b (fst move) (fst (snd move)) black of
                        Inl e \<Rightarrow> Inl e
                      | Inr (points, new_board) \<Rightarrow>
                          (case white_replies new_board
                                  (if get_turn new_board = blank then 1 else depth) of
                             Inl e \<Rightarrow> Inl e
                           | Inr (new_board', branch_depth) \<Rightarrow>
                               (case search_per_branch new_board' (branch_depth - 1) (Some move) of
                                  Inl e \<Rightarrow> Inl e
                                | Inr move_result \<Rightarrow>
                                    Inr (move_results @ [(move, snd move_result)]))))
                    [] valid_moves of
                Inl e \<Rightarrow> Inl e
              | Inr move_results \<Rightarrow>
                  (case py_get (sorted_reverse snd move_results) 0 of
                     Inl e \<Rightarrow> Inl e
                   | Inr best_move \<Rightarrow> Inr (Some (fst best_move), snd best_move)))))"
  by pat_completeness auto
termination
proof (relation "measure (\<lambda>(b, n, m). blank_count (board b))")
  show "wf (measure (\<lambda>(b, n, m). blank_count (board b)))" by simp
next
  fix b :: "grid Board" and depth :: int and last_move :: "move option"
    and valid_moves mv x2 points new_board x2a new_board' branch_depth
  assume "get_moves b black = Inr valid_moves" "mv \<in> set valid_moves"
    "add_piece b (fst mv) (fst (snd mv)) black = Inr x2" "(points, new_board) = x2"
    "white_replies new_board (if get_turn new_board = blank then 1 else depth) = Inr x2a"
    "(new_board', branch_depth) = x2a"
  then have "blank_count (board new_board) < blank_count (board b)"
    "blank_count (board new_board') \<le> blank_count (board new_board)"
    using listed_move_fills_square[of b black valid_moves mv points new_board]
      white_replies_blank_count[of new_board "if get_turn new_board = blank then 1 else depth"
        new_board' branch_depth]
    by simp_all
  then show "((new_board', branch_depth - 1, Some mv), b, depth, last_move)
      \<in> measure (\<lambda>(b, n, m). blank_count (board b))"
    by simp
qed

declare search_per_branch.simps [simp del]

section \<open>What the weighted draw can return\<close>

lemma xrange_upt: "xrange 0 (int n) = map int [0..<n]"
proof (induction n)
  case 0
  then show ?case by (simp add: xrange_def)
next
  case (Suc n)
  have "[0..int n] = [0..int n - 1] @ [int n]"
    using upto_rec2[of 0 "int n"] by simp
  then show ?case using Suc by (simp add: xrange_def)
qed

text \<open>The weight that the loop of \<^verbatim>\<open>_weight_moves_thirds\<close> gives to index \<open>i\<close> of \<open>n\<close> moves.\<close>

definition third_weight :: "int list \<Rightarrow> nat \<Rightarrow> nat \<Rightarrow> int" where
  "third_weight weights n i =
     (if 3 * i \<le> n then weights ! 0 else if 3 * i \<le> 2 * n then weights ! 1 else weights ! 2)"

definition weighted :: "int list \<Rightarrow> move list \<Rightarrow> nat \<Rightarrow> int" where
  "weighted weights ms i = move_score (ms ! i) * third_weight weights (length ms) i"

definition weigh_state :: "int list \<Rightarrow> move list \<Rightarrow> nat \<Rightarrow> move list \<times> int \<times> int list" where
  "weigh_state weights ms k =
     (map (\<lambda>i. (fst (ms ! i), fst (snd (ms ! i)), weighted weights ms i)) [0..<k] @ drop k ms,
      (\<Sum>i\<leftarrow>[0..<k]. weighted weights ms i),
      map (\<lambda>j. \<Sum>i\<leftarrow>[0..<Suc j]. weighted weights ms i) [0..<k])"

lemma weight_step_state:
  assumes "length weights = 3" "k < length ms"
  shows "weight_step weights (weigh_state weights ms k) (int k) = Inr (weigh_state weights ms (Suc k))"
proof -
  define vm where
    "vm = map (\<lambda>i. (fst (ms ! i), fst (snd (ms ! i)), weighted weights ms i)) [0..<k] @ drop k ms"
  define vm' where
    "vm' = map (\<lambda>i. (fst (ms ! i), fst (snd (ms ! i)), weighted weights ms i)) [0..<Suc k]
           @ drop (Suc k) ms"
  define T where "T = (\<Sum>i\<leftarrow>[0..<k]. weighted weights ms i)"
  define C where "C = map (\<lambda>j. \<Sum>i\<leftarrow>[0..<Suc j]. weighted weights ms i) [0..<k]"
  define w where "w = third_weight weights (length ms) k"
  have st: "weigh_state weights ms k = (vm, T, C)"
    by (simp add: weigh_state_def vm_def T_def C_def)
  have st': "weigh_state weights ms (Suc k) = (vm', T + move_score (ms ! k) * w, C @ [T + move_score (ms ! k) * w])"
    by (simp add: weigh_state_def vm'_def T_def C_def w_def weighted_def)
  have len: "length vm = length ms" using assms(2) by (simp add: vm_def)
  have wk: "(if int k * 3 \<le> int (length vm) then py_get weights 0
            else if real_of_int (int k) * 1.5 \<le> real (length vm) then py_get weights 1
            else py_get weights 2) = Inr w"
  proof -
    have "int k * 3 \<le> int (length ms) \<longleftrightarrow> 3 * k \<le> length ms" by linarith
    moreover have "real_of_int (int k) * 1.5 \<le> real (length ms) \<longleftrightarrow> 3 * k \<le> 2 * length ms"
      by (simp add: field_simps) linarith
    ultimately show ?thesis
      using assms(1) by (simp add: len third_weight_def py_get_in w_def)
  qed
  have at: "vm ! k = ms ! k" using assms(2) by (simp add: vm_def nth_append)
  have g: "py_get vm (int k) = Inr (fst (ms ! k), fst (snd (ms ! k)), move_score (ms ! k))"
    using assms(2) len py_get_in[of "int k" vm] at by (simp add: move_score_def)
  have upd: "vm[k := (fst (ms ! k), fst (snd (ms ! k)), move_score (ms ! k) * w)] = vm'"
    using assms(2)
    by (simp add: vm_def vm'_def list_update_append Cons_nth_drop_Suc[symmetric] weighted_def w_def)
  have s: "py_set vm (int k) (fst (ms ! k), fst (snd (ms ! k)), move_score (ms ! k) * w) = Inr vm'"
    using assms(2) len py_set_in[of "int k" vm] upd by simp
  have "weight_step weights (vm, T, C) (int k)
        = Inr (vm', T + move_score (ms ! k) * w, C @ [T + move_score (ms ! k) * w])"
    unfolding weight_step_def prod.case wk sum.case g s ..
  then show ?thesis by (simp only: st st')
qed

lemma weigh_loop:
  assumes "length weights = 3" "k \<le> length ms"
  shows "for_each (weight_step weights) (weigh_state weights ms k) (map int [k..<length ms])
         = Inr (weigh_state weights ms (length ms))"
  using assms(2)
proof (induction "length ms - k" arbitrary: k)
  case 0
  then show ?case by simp
next
  case (Suc d)
  then have k: "k < length ms" by simp
  then have "[k..<length ms] = k # [Suc k..<length ms]" by (rule upt_conv_Cons)
  then show ?case
    using weight_step_state[OF assms(1) k] Suc(1)[of "Suc k"] Suc(2) k by simp
qed

lemma bisect_loop_sorted:
  assumes "sorted a" "lo \<le> hi" "hi \<le> length a"
    and "\<forall>i < lo. real_of_int (a ! i) \<le> x"
    and "\<forall>i. hi \<le> i \<and> i < length a \<longrightarrow> x < real_of_int (a ! i)"
  shows "lo \<le> bisect_loop a x lo hi \<and> bisect_loop a x lo hi \<le> hi \<and>
         (\<forall>i < bisect_loop a x lo hi. real_of_int (a ! i) \<le> x) \<and>
         (\<forall>i. bisect_loop a x lo hi \<le> i \<and> i < length a \<longrightarrow> x < real_of_int (a ! i))"
  using assms
proof (induction a x lo hi rule: bisect_loop.induct)
  case (1 a x lo hi)
  show ?case
  proof (cases "lo < hi")
    case False
    then have "bisect_loop a x lo hi = lo" by (subst bisect_loop.simps) simp
    then show ?thesis using 1(3-7) False by simp
  next
    case True
    define mid where "mid = (lo + hi) div 2"
    have mid: "lo \<le> mid" "mid < hi" using True by (simp_all add: mid_def)
    show ?thesis
    proof (cases "x < real_of_int (a ! mid)")
      case less: True
      have eq: "bisect_loop a x lo hi = bisect_loop a x lo mid"
        using True less by (subst bisect_loop.simps) (simp add: mid_def)
      have up: "\<forall>i. mid \<le> i \<and> i < length a \<longrightarrow> x < real_of_int (a ! i)"
      proof (intro allI impI)
        fix i assume i: "mid \<le> i \<and> i < length a"
        then have "a ! mid \<le> a ! i" using 1(3) by (simp add: sorted_nth_mono)
        then show "x < real_of_int (a ! i)" using less by simp
      qed
      have "lo \<le> bisect_loop a x lo mid \<and> bisect_loop a x lo mid \<le> mid \<and>
         (\<forall>i < bisect_loop a x lo mid. real_of_int (a ! i) \<le> x) \<and>
         (\<forall>i. bisect_loop a x lo mid \<le> i \<and> i < length a \<longrightarrow> x < real_of_int (a ! i))"
        using 1(1)[OF True mid_def less 1(3) mid(1) _ 1(6) up] mid(2) 1(5) by simp
      then show ?thesis using eq mid by simp
    next
      case geq: False
      have eq: "bisect_loop a x lo hi = bisect_loop a x (mid + 1) hi"
        using True geq by (subst bisect_loop.simps) (simp add: mid_def)
      have low: "\<forall>i < mid + 1. real_of_int (a ! i) \<le> x"
      proof (intro allI impI)
        fix i assume i: "i < mid + 1"
        then have "a ! i \<le> a ! mid" using 1(3) mid(2) 1(5) by (simp add: sorted_nth_mono)
        then show "real_of_int (a ! i) \<le> x" using geq by simp
      qed
      have "mid + 1 \<le> bisect_loop a x (mid + 1) hi \<and> bisect_loop a x (mid + 1) hi \<le> hi \<and>
         (\<forall>i < bisect_loop a x (mid + 1) hi. real_of_int (a ! i) \<le> x) \<and>
         (\<forall>i. bisect_loop a x (mid + 1) hi \<le> i \<and> i < length a \<longrightarrow> x < real_of_int (a ! i))"
        using 1(2)[OF True mid_def geq 1(3) _ 1(5) low 1(7)] mid(2) by simp
      then show ?thesis using eq mid by simp
    qed
  qed
qed

lemma sum_list_upt: "(\<Sum>i\<leftarrow>[0..<k]. f i) = sum f {0..<k}" for f :: "nat \<Rightarrow> int"
  by (simp add: interv_sum_list_conv_sum_set_nat)

text \<open>
  With the weights 5, 2, 0 and scores that are all positive, the move that is returned
  stands at an index \<open>i\<close> with \<^verbatim>\<open>i * 1.5 <= len\<close>: a move that got the weight 0 is
  never returned.
\<close>

lemma zero_weight_never_selected:
  assumes pos: "\<forall>m \<in> set ms. 0 < move_score m" and ne: "ms \<noteq> []"
    and rnd: "0 \<le> rnd" "rnd < 1"
  shows "\<exists>i. i < length ms \<and> 3 * i \<le> 2 * length ms \<and>
           weight_moves_thirds ms [5, 2, 0] rnd
             = Inr (fst (ms ! i), fst (snd (ms ! i)), weighted [5, 2, 0] ms i)"
proof -
  define n where "n = length ms"
  define W where "W = weighted [5, 2, 0] ms"
  define total_w where "total_w = sum W {0..<n}"
  define cum where "cum = map (\<lambda>j. sum W {0..<Suc j}) [0..<n]"
  define vm where "vm = map (\<lambda>i. (fst (ms ! i), fst (snd (ms ! i)), W i)) [0..<n]"
  have n: "0 < n" using ne by (simp add: n_def)
  have score_pos: "0 < move_score (ms ! i)" if "i < n" for i
    using that pos by (simp add: n_def)
  have W_nonneg: "0 \<le> W i" if "i < n" for i
    using score_pos[OF that] by (simp add: W_def weighted_def third_weight_def)
  have W0: "0 < W 0"
    using score_pos[OF n] by (simp add: W_def weighted_def third_weight_def)
  have W_zero: "W i = 0" if "2 * n < 3 * i" for i
    using that by (simp add: W_def weighted_def third_weight_def n_def)
  have total_pos: "0 < total_w"
  proof -
    have "W 0 \<le> sum W {0..<n}"
      using n W_nonneg by (intro member_le_sum) auto
    then show ?thesis using W0 by (simp add: total_w_def)
  qed
  have loop: "for_each (weight_step [5, 2, 0]) (ms, 0, []) (xrange 0 (int (length ms)))
              = Inr (vm, total_w, cum)"
  proof -
    have "weigh_state [5, 2, 0] ms 0 = (ms, 0, [])" by (simp add: weigh_state_def)
    moreover have "weigh_state [5, 2, 0] ms (length ms) = (vm, total_w, cum)"
      by (simp add: weigh_state_def vm_def total_w_def cum_def W_def n_def sum_list_upt
          del: upt_Suc)
    ultimately show ?thesis
      using weigh_loop[of "[5, 2, 0]" 0 ms] by (simp add: xrange_upt)
  qed
  have len: "length cum = n" "length vm = n" by (simp_all add: cum_def vm_def)
  have cum_nth: "cum ! j = sum W {0..<Suc j}" if "j < n" for j
    using that by (simp add: cum_def del: upt_Suc)
  have sorted: "sorted cum"
  proof (unfold sorted_iff_nth_mono, intro allI impI)
    fix i j assume ij: "i \<le> j" "j < length cum"
    then have "sum W {0..<Suc i} \<le> sum W {0..<Suc j}"
      using W_nonneg len by (intro sum_mono2) auto
    then show "cum ! i \<le> cum ! j" using ij len by (simp add: cum_nth)
  qed
  define x where "x = rnd * real_of_int total_w"
  have x: "x < real_of_int total_w"
    using rnd total_pos by (simp add: x_def)
  define k where "k = bisect_loop cum x 0 (length cum)"
  have spec: "k \<le> n" "\<forall>i < k. real_of_int (cum ! i) \<le> x"
    using bisect_loop_sorted[OF sorted, of 0 "length cum" x] len by (simp_all add: k_def)
  have k_lt: "k < n"
  proof (rule ccontr)
    assume "\<not> k < n"
    then have "k = n" using spec(1) by simp
    then have "real_of_int (cum ! (n - 1)) \<le> x" using spec(2) n by simp
    moreover have "cum ! (n - 1) = total_w" using n by (simp add: cum_nth total_w_def)
    ultimately show False using x by simp
  qed
  have k_group: "3 * k \<le> 2 * n"
  proof (rule ccontr)
    assume "\<not> 3 * k \<le> 2 * n"
    then have far: "2 * n < 3 * k" by simp
    then have k1: "0 < k" using n by simp
    have "sum W {0..<n} = sum W {0..<k}"
      using k_lt far W_zero by (intro sum.mono_neutral_right) auto
    then have "cum ! (k - 1) = total_w"
      using k1 k_lt by (simp add: cum_nth total_w_def)
    moreover have "real_of_int (cum ! (k - 1)) \<le> x" using spec(2) k1 by simp
    ultimately show False using x by simp
  qed
  have "py_get vm (int k) = Inr (fst (ms ! k), fst (snd (ms ! k)), W k)"
    using k_lt len py_get_in[of "int k" vm] by (simp add: vm_def del: upt_Suc)
  moreover have "bisect_loop cum x 0 n = k" by (simp add: k_def len)
  ultimately have "weight_moves_thirds ms [5, 2, 0] rnd = Inr (fst (ms ! k), fst (snd (ms ! k)), W k)"
    using k_lt len
    by (simp add: weight_moves_thirds_def loop bisect_def x_def[symmetric] Let_def)
  then show ?thesis
    using k_lt k_group by (auto simp: n_def W_def)
qed

section \<open>Example boards\<close>

text \<open>The 4 by 4 starting position, as \<^verbatim>\<open>new_4_board\<close> of the tests has it.\<close>

definition board4 :: grid where
  "board4 =
     [[blank, blank, blank, blank],
      [blank, white, black, blank],
      [blank, black, white, blank],
      [blank, blank, blank, blank]]"

definition new_game :: "grid Board" where
  "new_game = \<lparr>board = board4, turn = white\<rparr>"

text \<open>The position after white has played (1, 3), as \<^verbatim>\<open>test_board_valid_move\<close> expects it.\<close>

definition after_first_move :: "grid Board" where
  "after_first_move =
     \<lparr>board =
        [[blank, blank, blank, blank],
         [blank, white, white, white],
         [blank, black, white, blank],
         [blank, blank, blank, blank]],
      turn = black\<rparr>"

text \<open>The position after black has answered with (2, 3).\<close>

definition after_second_move :: "grid Board" where
  "after_second_move =
     \<lparr>board =
        [[blank, blank, blank, blank],
         [blank, white, white, white],
         [blank, black, black, black],
         [blank, blank, blank, blank]],
      turn = white\<rparr>"

text \<open>
  The position of \<^verbatim>\<open>test_board_player_no_move\<close> before its last move: white is to move,
  and after white's (0, 1) black has no move.
\<close>

definition before_pass :: "grid Board" where
  "before_pass =
     \<lparr>board =
        [[blank, blank, blank, black],
         [blank, white, black, white],
         [blank, black, white, white],
         [blank, blank, blank, white]],
      turn = white\<rparr>"

definition after_pass :: "grid Board" where
  "after_pass =
     \<lparr>board =
        [[blank, white, blank, black],
         [blank, white, white, white],
         [blank, black, white, white],
         [blank, blank, blank, white]],
      turn = white\<rparr>"

text \<open>Playing a sequence of placements, each of which has to be accepted.\<close>

fun play :: "grid Board \<Rightarrow> (int \<times> int \<times> square) list \<Rightarrow> failure + grid Board" where
  "play b [] = Inr b"
| "play b ((r, c, team) # ms) =
     (case add_piece b r c team of
        Inl e \<Rightarrow> Inl e
      | Inr (points, b') \<Rightarrow> if points = 0 then Inl ValueError else play b' ms)"

text \<open>
  A position of a single-player game (white the player, black the strategy) in which
  white has just had to pass and black is to move, with two squares left.
\<close>

definition late_position :: "grid Board" where
  "late_position =
     \<lparr>board =
        [[black, white, blank, blank],
         [black, black, white, white],
         [black, black, black, white],
         [black, black, black, white]],
      turn = black\<rparr>"

text \<open>The end of that game, after black's (0, 2): neither side can move.\<close>

definition final_position :: "grid Board" where
  "final_position =
     \<lparr>board =
        [[black, black, black, blank],
         [black, black, black, white],
         [black, black, black, white],
         [black, black, black, white]],
      turn = blank\<rparr>"

section \<open>The side to move on a new board\<close>

text \<open>
  C10. \<^verbatim>\<open>makeboard(size)\<close> returns a board for every even size from 0 on (for a
  negative size the constructor raises \<^verbatim>\<open>IndexError\<close> and there is no board), and
  whenever it returns a board, the turn of that board is white.
\<close>

theorem makeboard_turn_is_white:
  "(even sz \<and> 0 \<le> sz \<longrightarrow> (\<exists>b. makeboard sz = Inr b)) \<and>
   (\<forall>b. makeboard sz = Inr b \<longrightarrow> turn b = white)"
  using makeboard_returns makeboard_turn by blast

theorem makeboard_turn_is_white_witness:
  "even (4::int) \<and> (0::int) \<le> 4 \<and>
   makeboard 4 = Inr \<lparr>board = Some board4, turn = white\<rparr> \<and>
   turn \<lparr>board = Some board4, turn = white\<rparr> = white"
proof -
  have e: "makeboard 4 = Inr \<lparr>board = Some board4, turn = white\<rparr>"
    by code_simp
  show ?thesis using makeboard_turn_is_white[of 4] e by simp
qed

section \<open>The winner\<close>

definition tiny_final :: "grid Board" where
  "tiny_final = \<lparr>board = [[white, white], [black, white]], turn = blank\<rparr>"

text \<open>
  C7. On an N by N grid \<^verbatim>\<open>who_won\<close> raises nothing. When the turn is blank (the
  terminal marker) it returns the tag of white if \<^verbatim>\<open>num_pieces(white)\<close> is the larger
  count, the tag of black if \<^verbatim>\<open>num_pieces(black)\<close> is the larger, and the tag of blank
  if the two are equal. When the turn is not blank it returns -1, which is the tag of
  no square. The method only reads the board: its model has no board to return.
\<close>

theorem who_won_counts:
  assumes "square_grid (board b)"
  shows "\<exists>w k. num_pieces b white = Inr w \<and> num_pieces b black = Inr k \<and>
           who_won b =
             Inr (if turn b \<noteq> blank then - 1
                  else if k < w then Square_val white
                  else if w < k then Square_val black
                  else Square_val blank) \<and>
           (\<forall>s. Square_val s \<noteq> - 1)"
proof -
  have "Square_val s \<noteq> - 1" for s by (cases s) simp_all
  then show ?thesis
    using assms
    by (auto simp: num_pieces_tally who_won_def white_advantage_tally)
qed

theorem who_won_counts_witness:
  "square_grid (board tiny_final) \<and> turn tiny_final = blank \<and>
   num_pieces tiny_final white = Inr 3 \<and> num_pieces tiny_final black = Inr 1 \<and>
   who_won tiny_final = Inr (Square_val white) \<and>
   who_won (tiny_final\<lparr>turn := black\<rparr>) = Inr (- 1)"
proof -
  have sq: "square_grid (board tiny_final)" by code_simp
  have ev: "turn tiny_final = blank" "num_pieces tiny_final white = Inr 3"
    "num_pieces tiny_final black = Inr 1" "who_won (tiny_final\<lparr>turn := black\<rparr>) = Inr (- 1)"
    by code_simp+
  show ?thesis
    using who_won_counts[OF sq] sq ev by simp
qed

section \<open>The capture score\<close>

text \<open>
  C1. On an N by N grid, for an empty square \<open>(r, c)\<close> inside the grid and the side
  whose turn it is, \<^verbatim>\<open>flip_score(r, c, side)\<close> returns the size of the capture set of
  the specification: the union, over the eight directions, of the run of opposing
  squares between \<open>(r, c)\<close> and the first square of the side, where a ray that leaves
  the grid, meets a blank square first, or meets a square of the side with nothing in
  between contributes nothing. It returns 0 when the square is outside the grid, is
  occupied, or the side is not the side to move. (\<open>capture_run_iff\<close> states the run of
  one direction square by square.)
\<close>

theorem flip_score_counts_captures:
  assumes "square_grid (board b)"
  shows "(in_grid (board b) r c \<and> square_at (board b) (r, c) = blank \<and> turn b = side \<longrightarrow>
            flip_score b r c side = Inr (int (card (captures (board b) side r c)))) \<and>
         (\<not> in_grid (board b) r c \<or> square_at (board b) (r, c) \<noteq> blank \<or> turn b \<noteq> side \<longrightarrow>
            flip_score b r c side = Inr 0)"
  using assms by (auto simp: flip_score_square score_def)

theorem flip_score_counts_captures_witness:
  "square_grid (board after_second_move) \<and> in_grid (board after_second_move) 3 1 \<and>
   square_at (board after_second_move) (3, 1) = blank \<and> turn after_second_move = white \<and>
   captures (board after_second_move) white 3 1 = {(2, 1), (2, 2)} \<and>
   flip_score after_second_move 3 1 white = Inr 2 \<and>
   square_at (board after_second_move) (1, 1) \<noteq> blank \<and>
   flip_score after_second_move 1 1 white = Inr 0 \<and>
   \<not> in_grid (board after_second_move) 3 4 \<and>
   flip_score after_second_move 3 4 white = Inr 0 \<and>
   turn after_second_move \<noteq> black \<and>
   flip_score after_second_move 0 3 black = Inr 0"
proof -
  have sq: "square_grid (board after_second_move)" by code_simp
  have h: "in_grid (board after_second_move) 3 1" "square_at (board after_second_move) (3, 1) = blank"
    "turn after_second_move = white" "square_at (board after_second_move) (1, 1) \<noteq> blank"
    "\<not> in_grid (board after_second_move) 3 4" "turn after_second_move \<noteq> black"
    by code_simp+
  have cap: "captures (board after_second_move) white 3 1 = {(2, 1), (2, 2)}" by code_simp
  show ?thesis
    using flip_score_counts_captures[OF sq, of 3 1 white]
      flip_score_counts_captures[OF sq, of 1 1 white]
      flip_score_counts_captures[OF sq, of 3 4 white]
      flip_score_counts_captures[OF sq, of 0 3 black] sq h cap
    by simp
qed

section \<open>Rejected placements\<close>

text \<open>
  C3. On an N by N grid, a placement that is illegal (the square is outside the grid,
  or occupied, or the side is not the side to move, or the capture set is empty) makes
  \<^verbatim>\<open>add_piece\<close> raise nothing and return 0, with the grid and the turn as before.
\<close>

theorem add_piece_illegal_is_noop:
  assumes "square_grid (board b)"
    and "\<not> in_grid (board b) r c \<or> square_at (board b) (r, c) \<noteq> blank \<or> turn b \<noteq> team \<or>
         captures (board b) team r c = {}"
  shows "add_piece b r c team = Inr (0, b)"
  using assms by (intro add_piece_rejected) auto

theorem add_piece_illegal_is_noop_witness:
  "square_grid (board new_game) \<and>
   \<not> in_grid (board new_game) 0 6 \<and> add_piece new_game 0 6 white = Inr (0, new_game) \<and>
   square_at (board new_game) (1, 1) \<noteq> blank \<and> add_piece new_game 1 1 white = Inr (0, new_game) \<and>
   turn new_game \<noteq> black \<and> add_piece new_game 1 0 black = Inr (0, new_game) \<and>
   captures (board new_game) white 0 0 = {} \<and> add_piece new_game 0 0 white = Inr (0, new_game)"
proof -
  have sq: "square_grid (board new_game)" by code_simp
  have h1: "\<not> in_grid (board new_game) 0 6" by code_simp
  have h2: "square_at (board new_game) (1, 1) \<noteq> blank" by code_simp
  have h3: "turn new_game \<noteq> black" by code_simp
  have h4: "captures (board new_game) white 0 0 = {}" by code_simp
  show ?thesis
    using add_piece_illegal_is_noop[OF sq, of 0 6 white] add_piece_illegal_is_noop[OF sq, of 1 1 white]
      add_piece_illegal_is_noop[OF sq, of 1 0 black] add_piece_illegal_is_noop[OF sq, of 0 0 white]
      sq h1 h2 h3 h4
    by simp
qed

section \<open>Turn advancement\<close>

text \<open>
  C2. On an N by N grid, after a placement that \<^verbatim>\<open>add_piece\<close> accepts (it returns a
  positive count), the turn is the non-mover if the non-mover has a legal move on the
  resulting grid, otherwise the mover if the mover has one, otherwise blank; so the
  turn is blank exactly when neither side has a legal move.
\<close>

theorem turn_after_accepted_placement:
  assumes "square_grid (board b)" and "add_piece b r c team = Inr (points, b')" and "0 < points"
  shows "turn b' =
           (if has_legal_move (board b') (opponent team) then opponent team
            else if has_legal_move (board b') team then team
            else blank) \<and>
         (turn b' = blank \<longleftrightarrow>
            \<not> has_legal_move (board b') white \<and> \<not> has_legal_move (board b') black)"
proof (cases "in_grid (board b) r c \<and> turn b = team \<and> square_at (board b) (r, c) = blank \<and>
              captures (board b) team r c \<noteq> {}")
  case False
  then have "add_piece b r c team = Inr (0, b)"
    using assms(1) by (rule add_piece_rejected[rotated])
  then show ?thesis using assms(2,3) by simp
next
  case True
  then obtain g' where "add_piece b r c team
      = Inr (score (board b) team r c, \<lparr>board = g', turn = turn_after g' team\<rparr>)"
    and team: "team \<noteq> blank"
    using add_piece_accepted[OF assms(1), of r c team] by blast
  then have b': "b' = \<lparr>board = g', turn = turn_after g' team\<rparr>" using assms(2) by simp
  show ?thesis
    using team unfolding b' by (cases team) (auto simp: turn_after_def)
qed

theorem turn_after_accepted_placement_witness:
  "square_grid (board new_game) \<and> add_piece new_game 1 3 white = Inr (1, after_first_move) \<and>
   has_legal_move (board after_first_move) (opponent white) \<and>
   turn after_first_move = opponent white \<and>
   square_grid (board before_pass) \<and> add_piece before_pass 0 1 white = Inr (1, after_pass) \<and>
   \<not> has_legal_move (board after_pass) (opponent white) \<and>
   has_legal_move (board after_pass) white \<and> turn after_pass = white \<and>
   square_grid (board late_position) \<and> add_piece late_position 0 2 black = Inr (2, final_position) \<and>
   \<not> has_legal_move (board final_position) white \<and>
   \<not> has_legal_move (board final_position) black \<and> turn final_position = blank"
proof -
  have sq: "square_grid (board new_game)" "square_grid (board before_pass)"
    "square_grid (board late_position)"
    by code_simp+
  have ap: "add_piece new_game 1 3 white = Inr (1, after_first_move)"
    "add_piece before_pass 0 1 white = Inr (1, after_pass)"
    "add_piece late_position 0 2 black = Inr (2, final_position)"
    by code_simp+
  have lm: "has_legal_move (board after_first_move) (opponent white)"
    "\<not> has_legal_move (board after_pass) (opponent white)"
    "has_legal_move (board after_pass) white"
    by code_simp+
  show ?thesis
    using turn_after_accepted_placement[OF sq(1) ap(1)]
      turn_after_accepted_placement[OF sq(2) ap(2)]
      turn_after_accepted_placement[OF sq(3) ap(3)] sq ap lm
    by (simp add: final_position_def)
qed

section \<open>Whether a side can move\<close>

text \<open>
  C5, as stated: \<^verbatim>\<open>can_move(side)\<close> is true exactly when the side has a legal move on
  the grid, whatever the turn. It is not so: on the starting position, where the turn is
  white, black has a legal move, yet \<^verbatim>\<open>can_move(black)\<close> is false; with the turn set to
  black on the same grid it is true. \<^verbatim>\<open>_validate_input\<close> rejects every square for a
  side that is not the side to move.
\<close>

theorem can_move_depends_on_turn:
  "has_legal_move board4 black \<and>
   can_move \<lparr>board = board4, turn = white\<rparr> black = Inr False \<and>
   can_move \<lparr>board = board4, turn = black\<rparr> black = Inr True"
  by code_simp

text \<open>
  C5, amended. On an N by N grid \<^verbatim>\<open>can_move(side)\<close> is true exactly when the side is
  the side to move and there is an empty square inside the grid where the side
  captures at least one square; for any other side it is false.
\<close>

theorem can_move_iff_turn_and_capture:
  assumes "square_grid (board b)"
  shows "can_move b side =
           Inr (turn b = side \<and>
                (\<exists>r c. in_grid (board b) r c \<and> square_at (board b) (r, c) = blank \<and>
                       captures (board b) side r c \<noteq> {}))"
  using can_move_square[OF assms, of side]
  by (simp add: has_legal_move_iff capturing_square_def)

theorem can_move_iff_turn_and_capture_witness:
  "square_grid (board new_game) \<and> can_move new_game white = Inr True \<and> turn new_game = white \<and>
   in_grid (board new_game) 1 3 \<and> square_at (board new_game) (1, 3) = blank \<and>
   captures (board new_game) white 1 3 \<noteq> {}"
proof -
  have sq: "square_grid (board new_game)" by code_simp
  have h: "turn new_game = white" "in_grid (board new_game) 1 3"
    "square_at (board new_game) (1, 3) = blank" "captures (board new_game) white 1 3 \<noteq> {}"
    by code_simp+
  have "\<exists>r c. in_grid (board new_game) r c \<and> square_at (board new_game) (r, c) = blank \<and>
          captures (board new_game) white r c \<noteq> {}"
    using h by blast
  then show ?thesis
    using can_move_iff_turn_and_capture[OF sq, of white] sq h by simp
qed

section \<open>The strategies play black only\<close>

text \<open>
  C9. The four strategies take no side: each enumerates the moves of black. On a board
  whose turn is not black that list is empty (on any grid, since \<^verbatim>\<open>_validate_input\<close>
  rejects before it reads a square), and every strategy raises instead of returning a
  move: \<^verbatim>\<open>novice_move\<close>, \<^verbatim>\<open>moderate_move\<close> and \<^verbatim>\<open>strong_move\<close> raise
  \<^verbatim>\<open>IndexError\<close>, \<^verbatim>\<open>weak_move\<close> raises \<^verbatim>\<open>ValueError\<close>.
\<close>

theorem strategies_fail_unless_black_to_move:
  assumes "turn b \<noteq> black"
  shows "get_moves b black = Inr [] \<and>
         novice_move b rnd = Inl IndexError \<and>
         weak_move b pick = Inl ValueError \<and>
         moderate_move b rnd = Inl IndexError \<and>
         strong_move b = Inl IndexError"
proof -
  have gm: "get_moves b black = Inr []" using assms by (rule get_moves_wrong_turn)
  have "strong_move_recurse b 3 None = Inl IndexError"
    by (subst strong_move_recurse.simps) (simp add: gm sorted_reverse_def py_get_Nil)
  then show ?thesis
    using gm
    by (simp add: novice_move_def weak_move_def moderate_move_def strong_move_def
        py_get_Nil randrange_def weight_moves_thirds_Nil)
qed

theorem strategies_fail_unless_black_to_move_witness:
  "turn new_game \<noteq> black \<and> get_moves new_game black = Inr [] \<and>
   novice_move new_game (1 / 2) = Inl IndexError \<and>
   weak_move new_game 7 = Inl ValueError \<and>
   moderate_move new_game (1 / 2) = Inl IndexError \<and>
   strong_move new_game = Inl IndexError"
proof -
  have t: "turn new_game \<noteq> black" by (simp add: new_game_def)
  show ?thesis
    using strategies_fail_unless_black_to_move[OF t, of "1 / 2" 7] t by simp
qed

section \<open>The move enumerator\<close>

text \<open>
  C8. On an N by N grid \<^verbatim>\<open>_get_moves(board, team)\<close> raises nothing and returns a list
  that holds exactly the squares whose \<^verbatim>\<open>flip_score\<close> for the team is positive, each
  once and with that score, in descending order of the score, the moves of equal score
  in the row-major order of the scan. This holds for every team, so for the side whose
  turn it is.
\<close>

theorem get_moves_sorted_and_stable:
  assumes "square_grid (board b)"
  shows "\<exists>ms. get_moves b team = Inr ms \<and>
           (\<forall>r c s. (r, c, s) \<in> set ms \<longleftrightarrow>
              in_grid (board b) r c \<and> flip_score b r c team = Inr s \<and> 0 < s) \<and>
           distinct (map (\<lambda>m. (fst m, fst (snd m))) ms) \<and>
           sorted_wrt (\<lambda>m m'. move_score m \<ge> move_score m') ms \<and>
           (\<forall>v. sorted_wrt row_major_before (filter (\<lambda>m. move_score m = v) ms))"
proof -
  let ?ms = "sorted_reverse move_score (scan_grid b team)"
  have 1: "get_moves b team = Inr ?ms" using assms by (rule get_moves_scan_grid)
  have 2: "(r, c, s) \<in> set ?ms \<longleftrightarrow>
             in_grid (board b) r c \<and> flip_score b r c team = Inr s \<and> 0 < s" for r c s
    using score_positive[of "board b" team r c]
    by (auto simp: set_sorted_reverse set_scan_grid flip_score_square[OF assms] capturing_square_def)
  have "distinct (map (\<lambda>m. (fst m, fst (snd m))) (scan_grid b team))"
    using scan_grid_sorted by (rule row_major_distinct)
  then have 3: "distinct (map (\<lambda>m. (fst m, fst (snd m))) ?ms)"
    by (simp add: distinct_map sorted_reverse_def)
  have 4: "sorted_wrt (\<lambda>m m'. move_score m \<ge> move_score m') ?ms"
    by (rule sorted_reverse_descending)
  have 5: "sorted_wrt row_major_before (filter (\<lambda>m. move_score m = v) ?ms)" for v
    unfolding sorted_reverse_stable using scan_grid_sorted by (rule sorted_wrt_filter)
  show ?thesis using 1 2 3 4 5 by blast
qed

theorem get_moves_sorted_and_stable_witness:
  "square_grid (board after_second_move) \<and>
   get_moves after_second_move (turn after_second_move)
     = Inr [(3, 1, 2), (3, 3, 2), (3, 0, 1), (3, 2, 1)] \<and>
   flip_score after_second_move 3 3 white = Inr 2 \<and>
   row_major_before (3, 1, 2) (3, 3, 2) \<and> row_major_before (3, 0, 1) (3, 2, 1)"
proof -
  have sq: "square_grid (board after_second_move)" by code_simp
  have ev: "get_moves after_second_move (turn after_second_move)
              = Inr [(3, 1, 2), (3, 3, 2), (3, 0, 1), (3, 2, 1)]"
    "flip_score after_second_move 3 3 white = Inr 2"
    "row_major_before (3, 1, 2) (3, 3, 2)" "row_major_before (3, 0, 1) (3, 2, 1)"
    by code_simp+
  show ?thesis
    using get_moves_sorted_and_stable[OF sq, of "turn after_second_move"] sq ev by simp
qed

section \<open>The depth of the search after a branch has ended the game\<close>

text \<open>
  C4 says that a candidate which ends the game stops the recursion on its own branch
  only, and that every other candidate of the same level is searched with the original
  remaining depth. The code does otherwise: when one candidate of
  \<^verbatim>\<open>strong_move_recurse\<close> ends the game, the loop sets \<^verbatim>\<open>num_moves_left\<close> to 1, and
  the candidates after it in the list are searched with that value, not with the depth
  the call was given. In \<open>late_position\<close>, reached by play from the 4 by 4 starting
  position, black has the moves (0, 2) and (0, 3), listed in that order. (0, 2) ends
  the game with 12 black squares. (0, 3) leaves black to move again and is worth 13
  black squares when it is searched with the remaining depth 2; the code evaluates it
  at depth 0, finds 11, and \<^verbatim>\<open>strong_move\<close> returns (0, 2). The search that cuts short
  only the branch that ended returns (0, 3).
\<close>

theorem strong_move_depth_leaks_to_later_candidates:
  "play new_game
     [(2, 0, white), (1, 0, black), (0, 1, white), (3, 0, black), (3, 1, white),
      (3, 2, black), (3, 3, white), (2, 3, black), (1, 3, white), (0, 0, black)]
     = Inr late_position \<and>
   get_moves late_position black = Inr [(0, 2, 2), (0, 3, 1)] \<and>
   strong_move_recurse late_position 3 None = Inr (Some (0, 2, 2), 12) \<and>
   search_per_branch late_position 3 None = Inr (Some (0, 3, 1), 13) \<and>
   strong_move late_position = Inr (Some (0, 2, 2))"
  by code_simp

section \<open>The third of the list that Moderate is not to pick\<close>

text \<open>
  C6 says that with the weights 5, 2, 0 and at least three moves in the list, no move
  of the bottom third of the list is ever selected, as the comment in
  \<^verbatim>\<open>moderate_move\<close> has it (\<^verbatim>\<open>won't pick last third\<close>). The code does otherwise. With
  three moves in the list, \<^verbatim>\<open>i * 3 <= len\<close> holds for the indices 0 and 1 and
  \<^verbatim>\<open>i * 1.5 <= len\<close> holds for index 2: the last of the three moves gets the weight 2,
  not 0. After white's first move on the 4 by 4 board black has three moves of score 1;
  the cumulative weights are 5, 10, 12, and for \<^verbatim>\<open>random.random()\<close> = 7/8 the draw is
  10.5, so \<^verbatim>\<open>moderate_move\<close> returns the last move of the list, with its weighted
  score 2. (What the code does keep to is \<open>zero_weight_never_selected\<close>: a move that
  got the weight 0 is never returned. The moves that get it are those at the indices
  with \<^verbatim>\<open>i * 1.5 > len\<close>, which is less than the last third whenever the length is a
  multiple of 3.)
\<close>

theorem moderate_move_picks_last_of_three:
  "play new_game [(1, 3, white)] = Inr after_first_move \<and>
   get_moves after_first_move black = Inr [(0, 1, 1), (0, 3, 1), (2, 3, 1)] \<and>
   moderate_move after_first_move (7 / 8) = Inr (2, 3, 2)"
  by code_simp

end
